theory Spec2Isabelle
  imports Complex_Main "HOL-Library.Log_Nat"
begin

section \<open>Short-time processing of audio signals: \<open>audlib/sig/stproc.py\<close>\<close>

text \<open>
  The module frames a signal into overlapping windowed frames (\<open>stana\<close>), counts the frames
  (\<open>numframes\<close>), gives the frame centres (\<open>stcenters\<close>) and rebuilds a signal by
  overlap-add (\<open>ola\<close>).

  Conventions of the embedding.
  \<^item> A one-dimensional numpy array of samples is a \<open>real list\<close>; a two-dimensional array of
    frames is a list of such lists. Sample values and times are exact reals: the rounding of
    sample arithmetic is not modelled.
  \<^item> \<open>stana\<close> reads one more attribute of its input array, \<open>sig.strides[0]\<close>, the number
    of bytes between two consecutive samples (8 for a contiguous float64 or int64 array, 4
    for float32, 2 for int16). It is the argument \<open>std\<close>, next to the samples \<open>sig\<close>.
  \<^item> Where a floating-point result is turned into an integer that drives indexing
    (\<open>math.ceil\<close> of a true division, \<open>int\<close> of the start offset in \<open>ola\<close>), the
    binary64 rounding is written out (\<open>fl_round\<close>).
  \<^item> Every exception of the source is a value \<open>Inl e\<close>.
  \<^item> \<open>hop2hsize\<close> lives in another module; the functions take the resolved hop size
    \<open>hsize\<close>, a natural number, in the place of \<open>hop\<close>.
\<close>

text \<open>
  \<open>ZeroDivisionError\<close>, \<open>ValueError\<close> and \<open>OverflowError\<close> are Python's exceptions. The other
  two outcomes are not raised by the code: they stand for a strided view that numpy builds
  without any check and whose values the embedding cannot give, because the view leaves the
  buffer (\<open>OutOfBounds\<close>) or reads its bytes across the boundaries of the elements
  (\<open>ByteGarbage\<close>).
\<close>

datatype error = ZeroDivisionError | ValueError | OverflowError | OutOfBounds | ByteGarbage

subsection \<open>Binary64 arithmetic on rationals\<close>

text \<open>
  A finite double is a rational. \<open>fl_round\<close> rounds a rational to the nearest double, ties to
  even, with gradual underflow (the smallest spacing is \<open>2 powi (-1074)\<close>). A result of
  magnitude \<open>2 ^ 1024\<close> or more is an overflow; on each path of the source modelled here an
  overflow ends in Python's \<open>OverflowError\<close>.
\<close>

definition ilog2 :: "rat \<Rightarrow> int" where
  \<comment> \<open>\<open>\<lfloor>log\<^sub>2 x\<rfloor>\<close> for \<open>x > 0\<close>, from the bit lengths of numerator and denominator\<close>
  "ilog2 x =
     (let e0 = bitlen (fst (quotient_of x)) - bitlen (snd (quotient_of x))
      in if 2 powi e0 \<le> x then e0 else e0 - 1)"

definition round_half_even :: "rat \<Rightarrow> int" where
  "round_half_even y =
     (let f = \<lfloor>y\<rfloor>; r = y - of_int f
      in if r < 1 / 2 then f
         else if 1 / 2 < r then f + 1
         else if even f then f else f + 1)"

definition fl_round :: "rat \<Rightarrow> error + rat" where
  \<comment> \<open>\<open>m\<close> is the significand in units of \<open>2 powi q\<close>, at most \<open>2 ^ 53\<close>; the largest
     finite double is \<open>(2 ^ 53 - 1) * 2 ^ 971\<close>\<close>
  "fl_round x =
     (if x = 0 then Inr 0
      else let a = \<bar>x\<bar>;
               q = max (ilog2 a - 52) (- 1074);
               m = round_half_even (a / 2 powi q)
           in if 971 < q \<or> (q = 971 \<and> m = 2 ^ 53) then Inl OverflowError
              else Inr (if 0 < x then of_int m * 2 powi q else - (of_int m * 2 powi q)))"

definition py_int :: "rat \<Rightarrow> int" where
  \<comment> \<open>\<open>int(x)\<close> of a finite float: truncation toward zero\<close>
  "py_int x = (if 0 \<le> x then \<lfloor>x\<rfloor> else - \<lfloor>- x\<rfloor>)"

definition py_ceil_truediv :: "int \<Rightarrow> int \<Rightarrow> error + int" where
  \<comment> \<open>\<open>math.ceil(a / b)\<close> on Python integers: the quotient is the correctly rounded double\<close>
  "py_ceil_truediv a b =
     (if b = 0 then Inl ZeroDivisionError
      else case fl_round (of_int a / of_int b) of
             Inl e \<Rightarrow> Inl e
           | Inr q \<Rightarrow> Inr \<lceil>q\<rceil>)"

definition ceil_div :: "int \<Rightarrow> int \<Rightarrow> int" where
  \<comment> \<open>the exact \<open>\<lceil>a / b\<rceil>\<close> for \<open>b > 0\<close>\<close>
  "ceil_div a b = - ((- a) div b)"

definition ola_sstart :: "nat \<Rightarrow> nat \<Rightarrow> error + int" where
  \<comment> \<open>\<open>hfrac = hsize*1. / fsize\<close>; \<open>sstart = int(-fsize * (1-hfrac))\<close>\<close>
  "ola_sstart fsize hsize =
     (case fl_round (of_nat hsize) of
        Inl e \<Rightarrow> Inl e
      | Inr hs \<Rightarrow>
     (case fl_round (of_nat fsize) of
        Inl e \<Rightarrow> Inl e
      | Inr fs \<Rightarrow>
     if fs = 0 then Inl ZeroDivisionError
     else
     (case fl_round (hs / fs) of
        Inl e \<Rightarrow> Inl e
      | Inr hfrac \<Rightarrow>
     (case fl_round (1 - hfrac) of
        Inl e \<Rightarrow> Inl e
      | Inr d \<Rightarrow>
     (case fl_round (- fs * d) of
        Inl e \<Rightarrow> Inl e
      | Inr p \<Rightarrow> Inr (py_int p))))))"

subsection \<open>Python slices and numpy slice updates\<close>

definition slice_index :: "int \<Rightarrow> nat \<Rightarrow> nat" where
  \<comment> \<open>a slice bound against a length: a negative bound counts from the end, then it is clipped\<close>
  "slice_index i n = (if i < 0 then nat (max 0 (i + int n)) else min (nat i) n)"

definition slice_lo :: "int option \<Rightarrow> nat \<Rightarrow> nat" where
  "slice_lo lo n = (case lo of None \<Rightarrow> 0 | Some i \<Rightarrow> slice_index i n)"

definition slice_hi :: "int option \<Rightarrow> nat \<Rightarrow> nat" where
  "slice_hi hi n = (case hi of None \<Rightarrow> n | Some j \<Rightarrow> slice_index j n)"

definition py_slice :: "'a list \<Rightarrow> int option \<Rightarrow> int option \<Rightarrow> 'a list" where
  \<comment> \<open>\<open>xs[lo:hi]\<close>; \<open>None\<close> is an omitted bound\<close>
  "py_slice xs lo hi =
     (let a = slice_lo lo (length xs); b = slice_hi hi (length xs)
      in take (b - a) (drop a xs))"

definition slice_assign :: "real list \<Rightarrow> int option \<Rightarrow> int option \<Rightarrow> real list \<Rightarrow> error + real list" where
  \<comment> \<open>\<open>buf[lo:hi] = src\<close>: the lengths agree, or \<open>src\<close> has one element and is broadcast\<close>
  "slice_assign buf lo hi src =
     (let a = slice_lo lo (length buf); b = slice_hi hi (length buf); n = b - a
      in if length src = n then Inr (take a buf @ src @ drop (a + n) buf)
         else if length src = 1 then Inr (take a buf @ replicate n (hd src) @ drop (a + n) buf)
         else Inl ValueError)"

definition slice_iadd :: "real list \<Rightarrow> int option \<Rightarrow> int option \<Rightarrow> real list \<Rightarrow> error + real list" where
  \<comment> \<open>\<open>buf[lo:hi] += src\<close>, with the same shape rule\<close>
  "slice_iadd buf lo hi src =
     (let a = slice_lo lo (length buf); b = slice_hi hi (length buf); n = b - a
      in if length src = n
         then Inr (take a buf @ map2 (+) (take n (drop a buf)) src @ drop (a + n) buf)
         else if length src = 1
         then Inr (take a buf @ map (\<lambda>x. x + hd src) (take n (drop a buf)) @ drop (a + n) buf)
         else Inl ValueError)"

subsection \<open>The analysis side\<close>

definition ana_sstart :: "nat \<Rightarrow> nat \<Rightarrow> bool \<Rightarrow> int" where
  \<comment> \<open>\<open>sstart = hsize-fsize if synth else 0\<close>, as \<open>stcenters\<close>, \<open>numframes\<close> and \<open>stana\<close>
     compute it\<close>
  "ana_sstart fsize hsize synth = (if synth then int hsize - int fsize else 0)"

definition numframes :: "real list \<Rightarrow> int \<Rightarrow> real list \<Rightarrow> nat \<Rightarrow> bool \<Rightarrow> error + int" where
  "numframes sig sr wind hsize synth =
     (let ssize = int (length sig);
          fsize = length wind;
          sstart = ana_sstart fsize hsize synth;
          send = ssize
      in py_ceil_truediv (send - sstart) (int hsize))"

definition np_arange :: "int \<Rightarrow> int \<Rightarrow> int \<Rightarrow> error + int list" where
  \<comment> \<open>\<open>np.arange(start, stop, step)\<close> on integers: \<open>math.ceil((stop - start) / step)\<close>
     values when that is positive, none otherwise\<close>
  "np_arange start stop step =
     (case py_ceil_truediv (stop - start) step of
        Inl e \<Rightarrow> Inl e
      | Inr n \<Rightarrow> Inr (map (\<lambda>i. start + int i * step) [0..<nat n]))"

definition stcenters :: "real list \<Rightarrow> int \<Rightarrow> real list \<Rightarrow> nat \<Rightarrow> bool \<Rightarrow> error + real list" where
  \<comment> \<open>At \<open>sr = 0\<close> numpy yields infinities and NaN, which this type does not hold: the
     definition is meant for \<open>sr \<noteq> 0\<close>.\<close>
  "stcenters sig sr wind hsize synth =
     (let ssize = int (length sig);
          fsize = length wind;
          sstart = ana_sstart fsize hsize synth;
          send = ssize
      in case np_arange sstart send (int hsize) of
           Inl e \<Rightarrow> Inl e
         | Inr grid \<Rightarrow>
             Inr (map (\<lambda>si. (real_of_int si + (real fsize - 1) / 2) / real_of_int sr) grid))"

definition as_strided :: "real list \<Rightarrow> int \<Rightarrow> int \<Rightarrow> int \<Rightarrow> nat \<Rightarrow> nat \<Rightarrow> error + real list list" where
  \<comment> \<open>\<open>as_strided(buf, shape=(nframe, fsize), strides=(std*hsize, std))\<close>, where consecutive
     elements of \<open>buf\<close> lie \<open>bstd\<close> bytes apart. Element \<open>i\<close> of row \<open>k\<close> is read \<open>std * (k*hsize + i)\<close>
     bytes after the first element of \<open>buf\<close>: that is element \<open>(std div bstd) * (k*hsize + i)\<close>
     when \<open>bstd\<close> divides \<open>std\<close>, and a read across elements otherwise. A view without
     elements reads nothing.\<close>
  "as_strided buf bstd std nframe fsize hsize =
     (if nframe < 0 then Inl ValueError
      else if nframe = 0 \<or> fsize = 0 then Inr (replicate (nat nframe) [])
      else if std mod bstd \<noteq> 0 then Inl ByteGarbage
      else let m = std div bstd;
               top = m * int ((nat nframe - 1) * hsize + fsize - 1)
           in if top < 0 \<or> int (length buf) \<le> top then Inl OutOfBounds
              else Inr (map (\<lambda>k. map (\<lambda>i. buf ! nat (m * int (k * hsize + i))) [0..<fsize])
                          [0..<nat nframe]))"

definition stana_geometry :: "real list \<Rightarrow> real list \<Rightarrow> nat \<Rightarrow> bool \<Rightarrow> error + int \<times> int \<times> int" where
  \<comment> \<open>the locals \<open>(nframe, zpleft, zpright)\<close> of \<open>stana\<close>\<close>
  "stana_geometry sig wind hsize synth =
     (let ssize = int (length sig);
          fsize = length wind;
          sstart = ana_sstart fsize hsize synth;
          send = ssize
      in case py_ceil_truediv (send - sstart) (int hsize) of
           Inl e \<Rightarrow> Inl e
         | Inr nframe \<Rightarrow>
             let zpleft = - sstart;
                 zpright = (nframe - 1) * int hsize + int fsize - zpleft - ssize
             in Inr (nframe, zpleft, zpright))"

definition stana :: "real list \<Rightarrow> int \<Rightarrow> int \<Rightarrow> real list \<Rightarrow> nat \<Rightarrow> bool \<Rightarrow> error + real list list" where
  \<comment> \<open>\<open>sig\<close> are the samples of the input array and \<open>std\<close> is its \<open>sig.strides[0]\<close>. The padded
     buffer comes from \<open>np.zeros\<close>: float64, its elements 8 bytes apart; without padding the
     buffer is the input itself, its elements \<open>std\<close> bytes apart. Either is viewed with the
     strides of the input.\<close>
  "stana sig std sr wind hsize synth =
     (case stana_geometry sig wind hsize synth of
        Inl e \<Rightarrow> Inl e
      | Inr (nframe, zpleft, zpright) \<Rightarrow>
          let ssize = int (length sig);
              padded = (0 < zpleft \<or> 0 < zpright)
          in case (if padded
                   then if ssize + zpleft + zpright < 0 then Inl ValueError
                        else slice_assign (replicate (nat (ssize + zpleft + zpright)) 0)
                               (Some zpleft) (Some (ssize + zpleft + zpright - zpright)) sig
                   else Inr sig) of
               Inl e \<Rightarrow> Inl e
             | Inr sigpad \<Rightarrow>
                 (case as_strided sigpad (if padded then 8 else std) std nframe (length wind) hsize of
                    Inl e \<Rightarrow> Inl e
                  | Inr rows \<Rightarrow> Inr (map (\<lambda>row. map2 (\<lambda>x w. x * w) row wind) rows)))"

subsection \<open>Overlap-add\<close>

definition ola_step :: "nat \<Rightarrow> int \<Rightarrow> int \<Rightarrow> real list \<Rightarrow> real list \<Rightarrow> error + real list" where
  \<comment> \<open>the body of the loop over the frames, without \<open>ii += hsize\<close>\<close>
  "ola_step fsize send ii sout fr =
     (let frame = py_slice fr None (Some (int fsize))
      in if ii < 0
         then slice_iadd sout None (Some (ii + int fsize)) (py_slice frame (Some (- ii)) None)
         else if send < ii + int fsize
         then slice_iadd sout (Some ii) None (py_slice frame None (Some (send - ii)))
         else slice_iadd sout (Some ii) (Some (ii + int fsize)) frame)"

fun ola_loop :: "nat \<Rightarrow> nat \<Rightarrow> int \<Rightarrow> int \<Rightarrow> real list \<Rightarrow> real list list \<Rightarrow> error + real list" where
  "ola_loop fsize hsize send ii sout [] = Inr sout"
| "ola_loop fsize hsize send ii sout (fr # rest) =
     (case ola_step fsize send ii sout fr of
        Inl e \<Rightarrow> Inl e
      | Inr sout' \<Rightarrow> ola_loop fsize hsize send (ii + int hsize) sout' rest)"

definition ola :: "real list list \<Rightarrow> int \<Rightarrow> real list \<Rightarrow> nat \<Rightarrow> error + real list" where
  "ola sframes sr wind hsize =
     (let nframe = int (length sframes);
          fsize = length wind
      in case ola_sstart fsize hsize of
           Inl e \<Rightarrow> Inl e
         | Inr sstart \<Rightarrow>
             let ssize = int hsize * (nframe - 1) + int fsize;
                 send = ssize + sstart
             in if send < 0 then Inl ValueError
                else ola_loop fsize hsize send sstart (replicate (nat send) 0) sframes)"

definition roundtrip :: "real list \<Rightarrow> int \<Rightarrow> int \<Rightarrow> real list \<Rightarrow> nat \<Rightarrow> bool \<Rightarrow> error + real list" where
  \<comment> \<open>\<open>ola(stana(sig, sr, wind, hop, synth), sr, wind, hop)\<close>\<close>
  "roundtrip sig std sr wind hsize synth =
     (case stana sig std sr wind hsize synth of
        Inl e \<Rightarrow> Inl e
      | Inr frames \<Rightarrow> ola frames sr wind hsize)"

definition cola :: "real list \<Rightarrow> nat \<Rightarrow> bool" where
  \<comment> \<open>constant overlap-add with constant one: the window samples at every residue of the hop
     sum to one\<close>
  "cola wind hsize =
     (\<forall>r \<in> set [0..<hsize].
        sum_list (map (\<lambda>j. wind ! j) (filter (\<lambda>j. j mod hsize = r) [0..<length wind])) = 1)"

subsection \<open>Proof devices\<close>

definition ola_term :: "nat \<Rightarrow> nat \<Rightarrow> int \<Rightarrow> real list list \<Rightarrow> nat \<Rightarrow> nat \<Rightarrow> real" where
  \<comment> \<open>what frame \<open>j\<close>, placed at \<open>ii + j * hsize\<close>, adds to output sample \<open>t\<close>\<close>
  "ola_term fsize hsize ii fs j t =
     (if ii + int j * int hsize \<le> int t \<and> int t < ii + int j * int hsize + int fsize
      then fs ! j ! nat (int t - ii - int j * int hsize) else 0)"

section \<open>Rounding and the exact ceiling\<close>

lemma bitlen_powi_bounds:
  assumes "0 < n"
  shows "(2::rat) powi (bitlen n - 1) \<le> of_int n" and "of_int n < (2::rat) powi bitlen n"
proof -
  have b: "1 \<le> bitlen n" using assms bitlen_eq_zero_iff[of n] bitlen_nonneg[of n] by linarith
  from bitlen_bounds[OF assms] have l: "2 ^ nat (bitlen n - 1) \<le> n" and u: "n < 2 ^ nat (bitlen n)" by auto
  have "(of_int (2 ^ nat (bitlen n - 1)) :: rat) \<le> of_int n" using l by (simp only: of_int_le_iff)
  then show "(2::rat) powi (bitlen n - 1) \<le> of_int n" using b by (simp add: power_int_def)
  have "(of_int n :: rat) < of_int (2 ^ nat (bitlen n))" using u by (simp only: of_int_less_iff)
  then show "of_int n < (2::rat) powi bitlen n" using b by (simp add: power_int_def)
qed

lemma ilog2_bounds:
  assumes "0 < x"
  shows "2 powi (ilog2 x) \<le> x \<and> x < 2 powi (ilog2 x + 1)"
proof -
  obtain n d where q: "quotient_of x = (n, d)" by (cases "quotient_of x")
  have d: "0 < d" using quotient_of_denom_pos[OF q] .
  have x: "x = of_int n / of_int d" using quotient_of_div[OF q] .
  have n: "0 < n" using assms d x by (simp add: zero_less_divide_iff)
  define e0 where "e0 = bitlen n - bitlen d"
  note bn = bitlen_powi_bounds[OF n] and bd = bitlen_powi_bounds[OF d]
  have dpos: "(0::rat) < of_int d" using d by simp
  have "x < 2 powi bitlen n / 2 powi (bitlen d - 1)"
    unfolding x using bn(2) bd(1) dpos
    by (intro frac_less) (auto simp: n less_imp_le)
  also have "\<dots> = 2 powi (bitlen n - (bitlen d - 1))" by (simp add: power_int_diff)
  also have "bitlen n - (bitlen d - 1) = e0 + 1" by (simp add: e0_def)
  finally have up: "x < 2 powi (e0 + 1)" .
  have "e0 - 1 = (bitlen n - 1) - bitlen d" by (simp add: e0_def)
  then have "(2::rat) powi (e0 - 1) = 2 powi ((bitlen n - 1) - bitlen d)" by (rule arg_cong)
  also have "\<dots> = (2::rat) powi (bitlen n - 1) / 2 powi bitlen d"
    by (rule power_int_diff) simp
  also have "\<dots> \<le> x"
    unfolding x using bn(1) bd(2) dpos
    using n by (intro frac_le) (auto simp: less_imp_le)
  finally have lo: "2 powi (e0 - 1) \<le> x" .
  show ?thesis
  proof (cases "2 powi e0 \<le> x")
    case True
    then show ?thesis using up by (simp add: ilog2_def q e0_def Let_def)
  next
    case False
    then show ?thesis using lo by (simp add: ilog2_def q e0_def Let_def)
  qed
qed

lemma round_half_even_err: "\<bar>of_int (round_half_even y) - y\<bar> \<le> 1 / 2"
proof -
  have "of_int \<lfloor>y\<rfloor> \<le> y" "y < of_int \<lfloor>y\<rfloor> + 1" by linarith+
  then show ?thesis by (auto simp: round_half_even_def Let_def)
qed

lemma round_half_even_of_int [simp]: "round_half_even (of_int k) = k"
  by (simp add: round_half_even_def)

lemma p2_pos [simp]: "(0::rat) < 2 powi k"
  by (simp add: power_int_def)

lemma p2_less_cancel: "(2::rat) powi i < 2 powi j \<Longrightarrow> i < j"
proof (rule ccontr)
  assume a: "(2::rat) powi i < 2 powi j" and "\<not> i < j"
  then have "j \<le> i" by simp
  then have "(2::rat) powi j \<le> 2 powi i" by (intro power_int_increasing) auto
  with a show False by simp
qed

lemma fl_round_mid:
  assumes x0: "x \<noteq> 0" and lo: "2 powi (- 1022) \<le> \<bar>x\<bar>" and hi: "\<bar>x\<bar> < 2 ^ 53"
  shows "\<exists>y. fl_round x = Inr y \<and> \<bar>y - x\<bar> \<le> \<bar>x\<bar> / 2 ^ 53 \<and> (x \<in> \<int> \<longrightarrow> y = x)"
proof -
  define a where "a = \<bar>x\<bar>"
  define e where "e = ilog2 a"
  define q where "q = e - 52"
  define p where "p = (2::rat) powi q"
  define m where "m = round_half_even (a / p)"
  have a0: "0 < a" using x0 by (simp add: a_def)
  from ilog2_bounds[OF a0] have e1: "2 powi e \<le> a" and e2: "a < 2 powi (e + 1)"
    by (simp_all add: e_def)
  have "(2::rat) powi e < 2 powi 53" using e1 hi by (simp add: a_def)
  then have e53: "e < 53" by (rule p2_less_cancel)
  have "(2::rat) powi (- 1022) < 2 powi (e + 1)" using lo e2 by (simp add: a_def)
  then have elo: "- 1022 < e + 1" by (rule p2_less_cancel)
  have qmax: "max (ilog2 a - 52) (- 1074) = q" using elo by (simp add: q_def e_def)
  have q0: "q \<le> 0" using e53 by (simp add: q_def)
  have p0: "0 < p" by (simp add: p_def)
  have "\<bar>of_int m - a / p\<bar> \<le> 1 / 2" unfolding m_def by (rule round_half_even_err)
  then have "\<bar>of_int m - a / p\<bar> * p \<le> 1 / 2 * p" using p0 by (intro mult_right_mono) auto
  moreover have "\<bar>of_int m - a / p\<bar> * p = \<bar>of_int m * p - a\<bar>"
  proof -
    have "\<bar>of_int m - a / p\<bar> * p = \<bar>(of_int m - a / p) * p\<bar>" using p0 by (simp add: abs_mult)
    also have "(of_int m - a / p) * p = of_int m * p - a" using p0 by (simp add: field_simps)
    finally show ?thesis .
  qed
  ultimately have err: "\<bar>of_int m * p - a\<bar> \<le> p / 2" by simp
  have "p = 2 powi e / 2 ^ 52"
  proof -
    have "(2::rat) powi (e - 52) = 2 powi e / 2 powi 52" by (rule power_int_diff) simp
    then show ?thesis by (simp add: p_def q_def)
  qed
  then have "p / 2 = 2 powi e / 2 ^ 53" by simp
  also have "\<dots> \<le> a / 2 ^ 53" using e1 by (intro divide_right_mono) auto
  finally have err2: "\<bar>of_int m * p - a\<bar> \<le> a / 2 ^ 53" using err by simp
  have fr: "fl_round x = Inr (if 0 < x then of_int m * p else - (of_int m * p))"
    using x0 q0 qmax by (simp add: fl_round_def Let_def a_def[symmetric] m_def p_def)
  have ex: "of_int m * p = a" if "x \<in> \<int>"
  proof -
    from that obtain k where k: "x = of_int k" by (auto elim: Ints_cases)
    have pinv: "1 / p = 2 ^ nat (- q)"
    proof -
      have "(2::rat) powi (- q) = 1 / 2 powi q" by (rule power_int_minus_divide)
      moreover have "(2::rat) powi (- q) = 2 ^ nat (- q)" using q0 by (simp add: power_int_def)
      ultimately show ?thesis by (simp add: p_def)
    qed
    have "a / p = a * (1 / p)" by simp
    also have "\<dots> = of_int (\<bar>k\<bar> * 2 ^ nat (- q))" by (simp add: pinv a_def k)
    finally have "m = \<bar>k\<bar> * 2 ^ nat (- q)" unfolding m_def by (simp only: round_half_even_of_int)
    then have "of_int m * p = of_int \<bar>k\<bar> * (1 / p) * p" by (simp add: pinv)
    also have "\<dots> = a" using p0 by (simp add: a_def k)
    finally show ?thesis .
  qed
  show ?thesis
  proof (cases "0 < x")
    case True
    then have ax: "a = x" by (simp add: a_def)
    show ?thesis using fr True err2 ex by (auto simp: ax a_def[symmetric])
  next
    case False
    then have ax: "a = - x" using x0 by (simp add: a_def)
    have "\<bar>- (of_int m * p) - x\<bar> = \<bar>of_int m * p - a\<bar>" by (simp add: ax abs_minus_commute)
    then show ?thesis using fr False err2 ex ax by (auto simp: a_def[symmetric])
  qed
qed

lemma ceil_div_bounds:
  assumes "0 < b"
  shows "b * (ceil_div a b - 1) < a" and "a \<le> b * ceil_div a b"
proof -
  have m: "0 \<le> (- a) mod b" "(- a) mod b < b" using assms by simp_all
  have d: "b * ((- a) div b) + (- a) mod b = - a" by simp
  have e: "b * (ceil_div a b - 1) = - (b * ((- a) div b)) - b" by (simp add: ceil_div_def algebra_simps)
  show "b * (ceil_div a b - 1) < a" using m d e by linarith
  have e2: "b * ceil_div a b = - (b * ((- a) div b))" by (simp add: ceil_div_def)
  show "a \<le> b * ceil_div a b" using m d e2 by linarith
qed

lemma py_ceil_truediv_exact:
  assumes b0: "0 < b" and ab: "\<bar>a\<bar> < 2 ^ 53" and bb: "b < 2 ^ 53"
  shows "py_ceil_truediv a b = Inr (ceil_div a b)"
proof (cases "a = 0")
  case True
  then show ?thesis using b0 by (simp add: py_ceil_truediv_def fl_round_def ceil_div_def)
next
  case False
  define x :: rat where "x = of_int a / of_int b"
  define k where "k = ceil_div a b"
  have rb: "(0::rat) < of_int b" using b0 by simp
  have x0: "x \<noteq> 0" using False b0 by (simp add: x_def)
  have ax: "\<bar>x\<bar> = of_int \<bar>a\<bar> / of_int b" using b0 by (simp add: x_def)
  have a1: "(1::rat) \<le> of_int \<bar>a\<bar>"
  proof -
    have "1 \<le> \<bar>a\<bar>" using False by simp
    then have "(of_int 1 :: rat) \<le> of_int \<bar>a\<bar>" by (simp only: of_int_le_iff)
    then show ?thesis by simp
  qed
  have blt: "(of_int b :: rat) < 2 ^ 53" using bb by (metis of_int_less_iff of_int_numeral of_int_power)
  have alt: "(of_int \<bar>a\<bar> :: rat) < 2 ^ 53" using ab by (metis of_int_less_iff of_int_numeral of_int_power)
  have "(2::rat) powi (- 1022) \<le> 1 / 2 ^ 53"
  proof -
    have "(2::rat) powi (- 1022) \<le> 2 powi (- 53)" by (intro power_int_increasing) auto
    also have "\<dots> = 1 / 2 ^ 53" by (simp add: power_int_minus_divide)
    finally show ?thesis .
  qed
  also have "\<dots> \<le> 1 / of_int b" using rb blt by (intro divide_left_mono) auto
  also have "\<dots> \<le> \<bar>x\<bar>" unfolding ax using a1 rb by (intro divide_right_mono) auto
  finally have lo: "2 powi (- 1022) \<le> \<bar>x\<bar>" .
  have xb: "\<bar>x\<bar> \<le> of_int \<bar>a\<bar>"
  proof -
    have "1 \<le> b" using b0 by simp
    then have "(of_int 1 :: rat) \<le> of_int b" by (simp only: of_int_le_iff)
    then have "(1::rat) \<le> of_int b" by simp
    then have "of_int \<bar>a\<bar> / of_int b \<le> (of_int \<bar>a\<bar> :: rat) / 1"
      by (intro divide_left_mono) auto
    then show ?thesis by (simp add: ax)
  qed
  then have hi: "\<bar>x\<bar> < 2 ^ 53" using alt by simp
  from fl_round_mid[OF x0 lo hi] obtain y where
    y: "fl_round x = Inr y" and err: "\<bar>y - x\<bar> \<le> \<bar>x\<bar> / 2 ^ 53" and ex: "x \<in> \<int> \<longrightarrow> y = x"
    by blast
  have "\<bar>x\<bar> / 2 ^ 53 < 1 / of_int b"
  proof -
    have "\<bar>x\<bar> / 2 ^ 53 = (of_int \<bar>a\<bar> / 2 ^ 53) / of_int b" by (simp add: ax)
    also have "\<dots> < 1 / of_int b" using alt rb by (intro divide_strict_right_mono) auto
    finally show ?thesis .
  qed
  with err have err1: "\<bar>y - x\<bar> < 1 / of_int b" by simp
  from ceil_div_bounds[OF b0, of a] have k1: "b * (k - 1) < a" and k2: "a \<le> b * k"
    by (simp_all add: k_def)
  have lower: "of_int (k - 1) + 1 / of_int b \<le> x"
  proof -
    from k1 have "b * (k - 1) + 1 \<le> a" by simp
    then have "(of_int (b * (k - 1) + 1) :: rat) \<le> of_int a" by (simp only: of_int_le_iff)
    then have "(of_int (b * (k - 1) + 1) :: rat) / of_int b \<le> of_int a / of_int b"
      using rb by (intro divide_right_mono) auto
    moreover have "(of_int (b * (k - 1) + 1) :: rat) / of_int b = of_int (k - 1) + 1 / of_int b"
      using rb by (simp add: field_simps)
    ultimately show ?thesis by (simp add: x_def)
  qed
  have ylo: "of_int (k - 1) < y" using lower err1 rb by (simp add: abs_less_iff)
  have yhi: "y \<le> of_int k"
  proof (cases "a = b * k")
    case True
    then have "x = of_int k" using rb by (simp add: x_def)
    then show ?thesis using ex by simp
  next
    case False
    with k2 have "a + 1 \<le> b * k" by simp
    then have "(of_int (a + 1) :: rat) \<le> of_int (b * k)" by (simp only: of_int_le_iff)
    then have "(of_int (a + 1) :: rat) / of_int b \<le> of_int (b * k) / of_int b"
      using rb by (intro divide_right_mono) auto
    moreover have "(of_int (a + 1) :: rat) / of_int b = x + 1 / of_int b"
      by (simp add: x_def add_divide_distrib)
    moreover have "(of_int (b * k) :: rat) / of_int b = of_int k" using rb by simp
    ultimately have "x + 1 / of_int b \<le> of_int k" by simp
    then show ?thesis using err1 rb by (simp add: abs_less_iff)
  qed
  have "\<lceil>y\<rceil> = k" using ylo yhi by (simp add: ceiling_eq_iff)
  then show ?thesis using b0 y by (simp add: py_ceil_truediv_def x_def k_def)
qed

lemma py_ceil_truediv_zero: "b \<noteq> 0 \<Longrightarrow> py_ceil_truediv 0 b = Inr 0"
  by (simp add: py_ceil_truediv_def fl_round_def)

section \<open>Slice bounds\<close>

lemma slice_index_le: "slice_index i n \<le> n"
  by (auto simp: slice_index_def max_def)

lemma slice_index_nonneg: "0 \<le> i \<Longrightarrow> i \<le> int n \<Longrightarrow> slice_index i n = nat i"
  by (simp add: slice_index_def)

section \<open>The frame grid\<close>

lemma ceil_div_nonneg: "0 < b \<Longrightarrow> - b < a \<Longrightarrow> 0 \<le> ceil_div a b"
proof (rule ccontr)
  assume b: "0 < b" and a: "- b < a" and "\<not> 0 \<le> ceil_div a b"
  then have "ceil_div a b \<le> - 1" by simp
  then have "b * ceil_div a b \<le> b * (- 1)" using b by (intro mult_left_mono) auto
  with ceil_div_bounds(2)[OF b, of a] a show False by simp
qed

lemma frame_grid_exact:
  assumes "wind \<noteq> []" and "0 < hsize"
    and "length sig + length wind < 2 ^ 53" and "hsize < 2 ^ 53"
  shows "py_ceil_truediv (int (length sig) - ana_sstart (length wind) hsize synth) (int hsize)
           = Inr (ceil_div (int (length sig) - ana_sstart (length wind) hsize synth) (int hsize))"
    and "0 \<le> ceil_div (int (length sig) - ana_sstart (length wind) hsize synth) (int hsize)"
proof -
  let ?a = "int (length sig) - ana_sstart (length wind) hsize synth"
  have F: "1 \<le> int (length wind)" using assms(1) by (cases wind) auto
  have n: "int (length sig) + int (length wind) < 2 ^ 53"
    using assms(3) by (metis of_nat_add of_nat_less_iff of_nat_numeral of_nat_power)
  have h: "int hsize < 2 ^ 53"
    using assms(4) by (metis of_nat_less_iff of_nat_numeral of_nat_power)
  have h0: "0 < int hsize" using assms(2) by simp
  have lohi: "- int hsize < ?a \<and> ?a < 2 ^ 53"
  proof (cases synth)
    case True
    then have "?a = int (length sig) + int (length wind) - int hsize"
      by (simp add: ana_sstart_def)
    with F n h0 show ?thesis by linarith
  next
    case False
    then have "?a = int (length sig)" by (simp add: ana_sstart_def)
    with F n h0 show ?thesis by linarith
  qed
  then have lo: "- int hsize < ?a" and hi: "?a < 2 ^ 53" by simp_all
  have "\<bar>?a\<bar> < 2 ^ 53" using lo hi h by linarith
  then show "py_ceil_truediv ?a (int hsize) = Inr (ceil_div ?a (int hsize))"
    using assms(2) h by (intro py_ceil_truediv_exact) auto
  show "0 \<le> ceil_div ?a (int hsize)" using lo assms(2) by (intro ceil_div_nonneg) auto
qed

lemma ceil_div_ceiling: "ceil_div a (int b) = \<lceil>real_of_int a / real b\<rceil>"
proof -
  have "\<lceil>real_of_int a / real_of_int (int b)\<rceil> = - (- a div int b)"
    by (rule ceiling_divide_eq_div)
  then show ?thesis by (simp add: ceil_div_def)
qed

section \<open>The overlap-add loop\<close>

lemma slice_iadd_length:
  assumes "slice_iadd buf lo hi src = Inr r"
  shows "length r = length buf"
proof -
  define a where "a = slice_lo lo (length buf)"
  define b where "b = slice_hi hi (length buf)"
  have a: "a \<le> length buf" by (auto simp: a_def slice_lo_def slice_index_le split: option.splits)
  have b: "b \<le> length buf" by (auto simp: b_def slice_hi_def slice_index_le split: option.splits)
  have n: "a + (b - a) \<le> length buf" using a b by linarith
  show ?thesis
    using assms a n
    by (auto simp: slice_iadd_def Let_def a_def[symmetric] b_def[symmetric] split: if_splits)
qed

lemma slice_iadd_error: "slice_iadd buf lo hi src = Inl e \<Longrightarrow> e = ValueError"
  by (auto simp: slice_iadd_def Let_def split: if_splits)

lemma ola_step_length: "ola_step F S ii sout fr = Inr r \<Longrightarrow> length r = length sout"
  by (auto simp: ola_step_def Let_def slice_iadd_length split: if_splits)

lemma ola_step_error: "ola_step F S ii sout fr = Inl e \<Longrightarrow> e = ValueError"
  by (auto simp: ola_step_def Let_def slice_iadd_error split: if_splits)

lemma ola_loop_length: "ola_loop F h S ii sout fs = Inr r \<Longrightarrow> length r = length sout"
proof (induction fs arbitrary: ii sout)
  case Nil
  then show ?case by simp
next
  case (Cons fr fs)
  then show ?case by (auto split: sum.splits dest: ola_step_length)
qed

lemma ola_loop_error: "ola_loop F h S ii sout fs = Inl e \<Longrightarrow> e = ValueError"
proof (induction fs arbitrary: ii sout)
  case Nil
  then show ?case by simp
next
  case (Cons fr fs)
  then show ?case by (auto split: sum.splits dest: ola_step_error)
qed

lemma py_slice_prefix: "py_slice xs None (Some (int n)) = take n xs"
  by (simp add: py_slice_def slice_lo_def slice_hi_def slice_index_def min_def)

lemma ola_step_bad:
  assumes l: "length fr < F" and S: "length sout = S"
    and pos: "0 < ii + int F" and fit: "ii + int F \<le> int S"
    and one: "nat (int (length fr) + min 0 ii) \<noteq> 1"
  shows "ola_step F (int S) ii sout fr = Inl ValueError"
proof (cases "ii < 0")
  case True
  have fr: "py_slice fr None (Some (int F)) = fr" using l by (simp add: py_slice_prefix)
  have src: "length (py_slice fr (Some (- ii)) None) = nat (int (length fr) + ii)"
    using True by (auto simp: py_slice_def slice_lo_def slice_hi_def slice_index_def min_def)
  have tgt: "slice_hi (Some (ii + int F)) (length sout) - slice_lo None (length sout) = nat (ii + int F)"
    using pos fit S by (auto simp: slice_lo_def slice_hi_def slice_index_def min_def)
  have ne: "nat (int (length fr) + ii) \<noteq> nat (ii + int F)" using l pos by linarith
  have one': "nat (int (length fr) + ii) \<noteq> 1" using one True by (simp add: min_def)
  show ?thesis
    using True ne one' by (simp add: ola_step_def fr slice_iadd_def src tgt Let_def)
next
  case False
  have fr: "py_slice fr None (Some (int F)) = fr" using l by (simp add: py_slice_prefix)
  have tgt: "slice_hi (Some (ii + int F)) (length sout) - slice_lo (Some ii) (length sout) = F"
    using False fit S by (auto simp: slice_lo_def slice_hi_def slice_index_def min_def)
  have one': "length fr \<noteq> 1" using one False by (simp add: min_def)
  show ?thesis
    using False fit l one' by (simp add: ola_step_def fr slice_iadd_def tgt Let_def)
qed

lemma ola_loop_bad:
  assumes "k < length fs" and "length (fs ! k) < F" and "length sout = S"
    and "0 < ii + int k * int h + int F" and "ii + int k * int h + int F \<le> int S"
    and "nat (int (length (fs ! k)) + min 0 (ii + int k * int h)) \<noteq> 1"
  shows "ola_loop F h (int S) ii sout fs = Inl ValueError"
  using assms
proof (induction fs arbitrary: k ii sout)
  case Nil
  then show ?case by simp
next
  case (Cons fr fs)
  show ?case
  proof (cases k)
    case 0
    with Cons.prems have "ola_step F (int S) ii sout fr = Inl ValueError"
      by (intro ola_step_bad) auto
    then show ?thesis by simp
  next
    case (Suc j)
    show ?thesis
    proof (cases "ola_step F (int S) ii sout fr")
      case (Inl e)
      then show ?thesis using ola_step_error[OF Inl] by simp
    next
      case (Inr sout')
      have len: "length sout' = S" using ola_step_length[OF Inr] Cons.prems(3) by simp
      have "ola_loop F h (int S) (ii + int h) sout' fs = Inl ValueError"
        using Cons.prems Suc len
        by (intro Cons.IH[of j]) (auto simp: algebra_simps)
      then show ?thesis using Inr by simp
    qed
  qed
qed

lemma ola_sstart_4_2: "ola_sstart 4 2 = Inr (- 2)"
  by code_simp

lemma ola_exact_unfold:
  assumes "ola_sstart (length wind) hsize = Inr (int hsize - int (length wind))"
  shows "ola sframes sr wind hsize =
           ola_loop (length wind) hsize (int (hsize * length sframes)) (int hsize - int (length wind))
             (replicate (hsize * length sframes) 0) sframes"
proof -
  have "int hsize * (int (length sframes) - 1) + int (length wind) + (int hsize - int (length wind))
          = int (hsize * length sframes)"
    by (simp add: algebra_simps)
  then show ?thesis
    using assms by (simp add: ola_def Let_def del: of_nat_mult)
qed

lemma slice_iadd_nth:
  assumes ab: "slice_lo lo (length buf) = a" "slice_hi hi (length buf) = a + n"
    and n: "length src = n" and fit: "a + n \<le> length buf"
  shows "slice_iadd buf lo hi src =
           Inr (map (\<lambda>t. buf ! t + (if a \<le> t \<and> t < a + n then src ! (t - a) else 0)) [0..<length buf])"
proof -
  let ?r = "take a buf @ map2 (+) (take n (drop a buf)) src @ drop (a + n) buf"
  have r: "slice_iadd buf lo hi src = Inr ?r"
    using ab n by (simp add: slice_iadd_def Let_def)
  have "?r = map (\<lambda>t. buf ! t + (if a \<le> t \<and> t < a + n then src ! (t - a) else 0)) [0..<length buf]"
  proof (rule nth_equalityI)
    show "length ?r = length (map (\<lambda>t. buf ! t + (if a \<le> t \<and> t < a + n then src ! (t - a) else 0)) [0..<length buf])"
      using n fit by simp
  next
    fix t assume "t < length ?r"
    then have t: "t < length buf" using n fit by simp
    consider "t < a" | "a \<le> t" "t < a + n" | "a + n \<le> t" by linarith
    then show "?r ! t = map (\<lambda>t. buf ! t + (if a \<le> t \<and> t < a + n then src ! (t - a) else 0)) [0..<length buf] ! t"
    proof cases
      case 1
      then show ?thesis using t fit by (simp add: nth_append)
    next
      case 2
      then have "?r ! t = (map2 (+) (take n (drop a buf)) src) ! (t - a)"
        using t fit n by (auto simp add: nth_append min_def)
      also have "\<dots> = buf ! t + src ! (t - a)"
        using 2 t fit n by simp
      finally show ?thesis using 2 t by simp
    next
      case 3
      then have "?r ! t = drop (a + n) buf ! (t - (a + n))"
        using t fit n by (auto simp add: nth_append min_def)
      also have "\<dots> = buf ! t" using 3 t by simp
      finally show ?thesis using 3 t by simp
    qed
  qed
  with r show ?thesis by simp
qed

lemma ola_step_good:
  assumes fr: "F \<le> length fr" and S: "length sout = S"
    and lo: "0 \<le> ii + int F" and hi: "ii + int F \<le> int S"
  shows "ola_step F (int S) ii sout fr =
           Inr (map (\<lambda>t. sout ! t + (if ii \<le> int t \<and> int t < ii + int F
                                      then fr ! nat (int t - ii) else 0)) [0..<S])"
proof (cases "ii < 0")
  case True
  define a where "a = nat (- ii)"
  define n where "n = nat (ii + int F)"
  have aF: "a + n = F" using True lo by (simp add: a_def n_def)
  have src: "py_slice (take F fr) (Some (- ii)) None = drop a (take F fr)"
    using True fr aF by (simp add: py_slice_def slice_lo_def slice_hi_def slice_index_def a_def min_def)
  have 1: "slice_lo None (length sout) = 0" by (simp add: slice_lo_def)
  have nS: "nat (ii + int F) \<le> S" using lo hi by linarith
  have 2: "slice_hi (Some (ii + int F)) (length sout) = 0 + n"
    using lo nS S unfolding slice_hi_def slice_index_def n_def by simp
  have 3: "length (drop a (take F fr)) = n" using fr aF by simp
  have 4: "0 + n \<le> length sout" using hi S lo by (simp add: n_def)
  have "ola_step F (int S) ii sout fr =
      Inr (map (\<lambda>t. sout ! t + (if 0 \<le> t \<and> t < 0 + n then drop a (take F fr) ! (t - 0) else 0)) [0..<length sout])"
    using True by (simp only: ola_step_def py_slice_prefix Let_def if_True src slice_iadd_nth[OF 1 2 3 4])
  also have "\<dots> = Inr (map (\<lambda>t. sout ! t + (if ii \<le> int t \<and> int t < ii + int F
                                      then fr ! nat (int t - ii) else 0)) [0..<S])"
  proof -
    have "(if 0 \<le> t \<and> t < 0 + n then drop a (take F fr) ! (t - 0) else 0)
        = (if ii \<le> int t \<and> int t < ii + int F then fr ! nat (int t - ii) else 0)" for t
    proof (cases "t < n")
      case t: True
      then have "a + t < F" using aF by simp
      moreover have "nat (int t - ii) = a + t" using True by (simp add: a_def)
      moreover have "ii \<le> int t \<and> int t < ii + int F" using t True lo by (simp add: n_def)
      ultimately show ?thesis using t fr by simp
    next
      case False
      then have "\<not> int t < ii + int F" using lo by (simp add: n_def)
      then show ?thesis using False by simp
    qed
    then show ?thesis using S by simp
  qed
  finally show ?thesis .
next
  case False
  define a where "a = nat ii"
  have aS: "nat ii \<le> S" "nat (ii + int F) \<le> S" "nat (ii + int F) = nat ii + F"
    using False hi by linarith+
  have 1: "slice_lo (Some ii) (length sout) = a"
    using False aS S unfolding slice_lo_def slice_index_def a_def by simp
  have 2: "slice_hi (Some (ii + int F)) (length sout) = a + F"
    using False aS S unfolding slice_hi_def slice_index_def a_def by simp
  have 3: "length (take F fr) = F" using fr by simp
  have 4: "a + F \<le> length sout" using False hi S by (simp add: a_def)
  have nb: "\<not> int S < ii + int F" using hi by simp
  have "ola_step F (int S) ii sout fr =
      Inr (map (\<lambda>t. sout ! t + (if a \<le> t \<and> t < a + F then take F fr ! (t - a) else 0)) [0..<length sout])"
    using False nb by (simp only: ola_step_def py_slice_prefix Let_def if_False slice_iadd_nth[OF 1 2 3 4])
  also have "\<dots> = Inr (map (\<lambda>t. sout ! t + (if ii \<le> int t \<and> int t < ii + int F
                                      then fr ! nat (int t - ii) else 0)) [0..<S])"
  proof -
    have "(if a \<le> t \<and> t < a + F then take F fr ! (t - a) else 0)
        = (if ii \<le> int t \<and> int t < ii + int F then fr ! nat (int t - ii) else 0)" for t
    proof (cases "a \<le> t \<and> t < a + F")
      case True
      then have "ii \<le> int t \<and> int t < ii + int F" using False by (simp add: a_def) linarith
      moreover have "nat (int t - ii) = t - a" using False by (simp add: a_def)
      moreover have "t - a < F" using True by linarith
      ultimately show ?thesis using True by simp
    next
      case F2: False
      then have "\<not> (ii \<le> int t \<and> int t < ii + int F)" using False by (simp add: a_def) linarith
      then show ?thesis using F2 by (simp only: if_False)
    qed
    then show ?thesis using S by simp
  qed
  finally show ?thesis .
qed

lemma ola_term_Cons_0:
  "ola_term F h ii (fr # fs) 0 t = (if ii \<le> int t \<and> int t < ii + int F then fr ! nat (int t - ii) else 0)"
  by (simp add: ola_term_def)

lemma ola_term_Cons_Suc:
  "ola_term F h ii (fr # fs) (Suc j) t = ola_term F h (ii + int h) fs j t"
  by (simp add: ola_term_def algebra_simps)

lemma ola_loop_good:
  assumes "\<forall>fr \<in> set fs. F \<le> length fr" and "length sout = S" and "0 \<le> ii + int F"
    and "\<forall>j<length fs. ii + int j * int h + int F \<le> int S"
  shows "ola_loop F h (int S) ii sout fs =
           Inr (map (\<lambda>t. sout ! t + (\<Sum>j<length fs. ola_term F h ii fs j t)) [0..<S])"
  using assms
proof (induction fs arbitrary: ii sout)
  case Nil
  have "map ((!) sout) [0..<length sout] = sout" by (rule map_nth)
  then show ?case using Nil.prems(2) by simp
next
  case (Cons fr fs)
  let ?s1 = "map (\<lambda>t. sout ! t + (if ii \<le> int t \<and> int t < ii + int F
                                      then fr ! nat (int t - ii) else 0)) [0..<S]"
  have fit0: "ii + int F \<le> int S" using Cons.prems(4) by fastforce
  have step: "ola_step F (int S) ii sout fr = Inr ?s1"
    using Cons.prems fit0 by (intro ola_step_good) auto
  have fits: "\<forall>j<length fs. (ii + int h) + int j * int h + int F \<le> int S"
  proof (intro allI impI)
    fix j assume "j < length fs"
    then have "Suc j < length (fr # fs)" by simp
    with Cons.prems(4) have "ii + int (Suc j) * int h + int F \<le> int S" by blast
    then show "(ii + int h) + int j * int h + int F \<le> int S" by (simp add: algebra_simps)
  qed
  have ih: "ola_loop F h (int S) (ii + int h) ?s1 fs =
           Inr (map (\<lambda>t. ?s1 ! t + (\<Sum>j<length fs. ola_term F h (ii + int h) fs j t)) [0..<S])"
    using Cons.prems fits by (intro Cons.IH) auto
  have "map (\<lambda>t. ?s1 ! t + (\<Sum>j<length fs. ola_term F h (ii + int h) fs j t)) [0..<S]
      = map (\<lambda>t. sout ! t + (\<Sum>j<length (fr # fs). ola_term F h ii (fr # fs) j t)) [0..<S]"
  proof (rule map_cong[OF refl])
    fix t assume "t \<in> set [0..<S]"
    then have t: "t < S" by simp
    have "(\<Sum>j<length (fr # fs). ola_term F h ii (fr # fs) j t)
        = ola_term F h ii (fr # fs) 0 t + (\<Sum>j<length fs. ola_term F h ii (fr # fs) (Suc j) t)"
      unfolding length_Cons by (rule sum.lessThan_Suc_shift)
    then show "?s1 ! t + (\<Sum>j<length fs. ola_term F h (ii + int h) fs j t)
        = sout ! t + (\<Sum>j<length (fr # fs). ola_term F h ii (fr # fs) j t)"
      using t by (simp add: ola_term_Cons_0 ola_term_Cons_Suc)
  qed
  with step ih show ?case by simp
qed

section \<open>The frames of the analysis\<close>

lemma slice_assign_pad:
  "slice_assign (replicate (nat (int (length sig) + int zl + int zr)) 0) (Some (int zl))
      (Some (int (length sig) + int zl + int zr - int zr)) sig
     = Inr (replicate zl 0 @ sig @ replicate zr 0)"
proof -
  have n: "nat (int (length sig) + int zl + int zr) = zl + length sig + zr" by simp
  have lo: "slice_lo (Some (int zl)) (zl + length sig + zr) = zl"
    by (simp add: slice_lo_def slice_index_def)
  have hi: "slice_hi (Some (int (length sig) + int zl + int zr - int zr)) (zl + length sig + zr)
              = zl + length sig"
    by (simp add: slice_hi_def slice_index_def)
  show ?thesis
    unfolding slice_assign_def n length_replicate lo hi Let_def
    by (simp add: replicate_add[symmetric] del: replicate_add)
qed

lemma stana_geometry_zpright:
  assumes "stana_geometry sig wind hsize synth = Inr (nframe, zpleft, zpright)"
  shows "zpright = (nframe - 1) * int hsize + int (length wind) - zpleft - int (length sig)"
  using assms by (auto simp: stana_geometry_def Let_def split: sum.splits)

lemma take_drop_nth:
  assumes "n + F \<le> length xs"
  shows "map (\<lambda>i. xs ! (n + i)) [0..<F] = take F (drop n xs)"
proof (rule nth_equalityI)
  show "length (map (\<lambda>i. xs ! (n + i)) [0..<F]) = length (take F (drop n xs))"
    using assms by simp
next
  fix i assume "i < length (map (\<lambda>i. xs ! (n + i)) [0..<F])"
  then have "i < F" by simp
  then show "map (\<lambda>i. xs ! (n + i)) [0..<F] ! i = take F (drop n xs) ! i"
    using assms by simp
qed

text \<open>
  When the view has the byte stride of its buffer, row \<open>k\<close> is the slice
  \<open>buf[k*hsize : k*hsize + fsize]\<close>.
\<close>

lemma as_strided_same:
  assumes s: "s \<noteq> 0" and fit: "0 < N \<Longrightarrow> (N - 1) * h + F \<le> length buf"
  shows "as_strided buf s s (int N) F h = Inr (map (\<lambda>k. take F (drop (k * h) buf)) [0..<N])"
proof (cases "N = 0 \<or> F = 0")
  case True
  have "map (\<lambda>k. take 0 (drop (k * h) buf)) [0..<N] = replicate N []"
    by (simp add: map_replicate_const)
  then show ?thesis using True by (auto simp: as_strided_def)
next
  case False
  then have N: "0 < N" and F: "0 < F" by simp_all
  have len: "(N - 1) * h + F \<le> length buf" using fit N by simp
  have nN: "nat (int N) = N" by simp
  have M: "(N - 1) * h + F - 1 < length buf" using len F by linarith
  have "0 \<le> int ((N - 1) * h + F - 1)" by (rule of_nat_0_le_iff)
  moreover have "int ((N - 1) * h + F - 1) < int (length buf)"
    using M by (simp only: of_nat_less_iff)
  ultimately have top: "\<not> (1 * int ((N - 1) * h + F - 1) < 0
               \<or> int (length buf) \<le> 1 * int ((N - 1) * h + F - 1))"
    by linarith
  have c1: "\<not> int N < 0" by simp
  have c2: "\<not> (int N = 0 \<or> F = 0)" using N F by simp
  have c3: "\<not> s mod s \<noteq> 0" by simp
  have d: "s div s = 1" using s by simp
  have rows: "map (\<lambda>k. map (\<lambda>i. buf ! nat (1 * int (k * h + i))) [0..<F]) [0..<nat (int N)]
        = map (\<lambda>k. take F (drop (k * h) buf)) [0..<N]"
  proof (rule map_cong)
    show "[0..<nat (int N)] = [0..<N]" by simp
  next
    fix k assume "k \<in> set [0..<N]"
    then have "k \<le> N - 1" by simp
    then have "k * h \<le> (N - 1) * h" by (rule mult_le_mono1)
    then have "k * h + F \<le> length buf" using len by linarith
    moreover have "nat (1 * int (k * h + i)) = k * h + i" for i
      by (simp only: mult_1 nat_int)
    ultimately show "map (\<lambda>i. buf ! nat (1 * int (k * h + i))) [0..<F]
        = take F (drop (k * h) buf)"
      by (simp only: take_drop_nth)
  qed
  have "as_strided buf s s (int N) F h
      = Inr (map (\<lambda>k. map (\<lambda>i. buf ! nat (1 * int (k * h + i))) [0..<F]) [0..<nat (int N)])"
    unfolding as_strided_def Let_def d nN using c1 c2 c3 top by (simp only: if_False)
  then show ?thesis by (simp only: rows)
qed

lemma stana_from_geometry:
  assumes g: "stana_geometry sig wind hsize synth = Inr (int N, int zl, int zr)"
  shows "stana sig 8 sr wind hsize synth =
           Inr (map (\<lambda>k. map2 (\<lambda>x w. x * w)
                            (take (length wind) (drop (k * hsize) (replicate zl 0 @ sig @ replicate zr 0))) wind)
                  [0..<N])"
proof -
  let ?pad = "replicate zl 0 @ sig @ replicate zr 0"
  have z: "int zr = (int N - 1) * int hsize + int (length wind) - int zl - int (length sig)"
    by (rule stana_geometry_zpright[OF g])
  have pad: "(if 0 < int zl \<or> 0 < int zr
              then if int (length sig) + int zl + int zr < 0 then Inl ValueError
                   else slice_assign (replicate (nat (int (length sig) + int zl + int zr)) 0)
                          (Some (int zl)) (Some (int (length sig) + int zl + int zr - int zr)) sig
              else Inr sig) = Inr ?pad"
  proof (cases "0 < int zl \<or> 0 < int zr")
    case True
    then show ?thesis by (simp only: if_True slice_assign_pad) simp
  next
    case False
    then have "zl = 0" "zr = 0" by simp_all
    then show ?thesis by simp
  qed
  have len: "0 < N \<Longrightarrow> length ?pad = (N - 1) * hsize + length wind"
  proof -
    assume N: "0 < N"
    then have "int (N - 1) = int N - 1" by simp
    then have "int (length ?pad) = int ((N - 1) * hsize + length wind)" using z by simp
    then show ?thesis by (simp only: of_nat_eq_iff)
  qed
  have st: "as_strided ?pad 8 8 (int N) (length wind) hsize
              = Inr (map (\<lambda>k. take (length wind) (drop (k * hsize) ?pad)) [0..<N])"
    using len by (intro as_strided_same) simp_all
  show ?thesis
    unfolding stana_def g sum.case prod.case Let_def pad if_cancel st
    by (simp add: comp_def)
qed

lemma stana_geometry_synth:
  fixes sig wind :: "real list"
  assumes h0: "0 < hsize" and hF: "hsize \<le> length wind" and sz: "length sig + length wind < 2 ^ 53"
  defines "N \<equiv> nat (ceil_div (int (length sig) + int (length wind) - int hsize) (int hsize))"
  shows "stana_geometry sig wind hsize True
           = Inr (int N, int (length wind - hsize), int (N * hsize - length sig))"
    and "length sig + length wind \<le> N * hsize + hsize"
    and "N * hsize < length sig + length wind"
proof -
  let ?a = "int (length sig) + int (length wind) - int hsize"
  let ?c = "ceil_div ?a (int hsize)"
  have w: "wind \<noteq> []" using h0 hF by auto
  have hb: "hsize < 2 ^ 53" using hF sz by linarith
  have s: "int (length sig) - ana_sstart (length wind) hsize True = ?a"
    by (simp add: ana_sstart_def)
  note g0 = frame_grid_exact[OF w h0 sz hb, of True]
  note g = g0[unfolded s]
  have cN: "?c = int N" using g(2) by (simp add: N_def)
  have ih: "0 < int hsize" using h0 by simp
  from ceil_div_bounds[OF ih, of ?a] have b1: "int hsize * (int N - 1) < ?a" and b2: "?a \<le> int hsize * int N"
    by (simp_all add: cN)
  have "int (length sig + length wind) \<le> int (N * hsize + hsize)"
    using b2 by (simp add: algebra_simps)
  then show le: "length sig + length wind \<le> N * hsize + hsize" by (simp only: of_nat_le_iff)
  have "int (N * hsize) < int (length sig + length wind)"
    using b1 by (simp add: algebra_simps)
  then show "N * hsize < length sig + length wind" by (simp only: of_nat_less_iff)
  have nle: "length sig \<le> N * hsize" using le hF by linarith
  have "(int N - 1) * int hsize + int (length wind) - (- (int hsize - int (length wind))) - int (length sig)
          = int (N * hsize - length sig)"
    using nle by (simp add: algebra_simps of_nat_diff)
  moreover have "- (int hsize - int (length wind)) = int (length wind - hsize)"
    using hF by (simp add: of_nat_diff)
  moreover have "stana_geometry sig wind hsize True
      = Inr (int N, - (int hsize - int (length wind)),
             (int N - 1) * int hsize + int (length wind) - (- (int hsize - int (length wind))) - int (length sig))"
    unfolding stana_geometry_def Let_def s g(1) cN by (simp add: ana_sstart_def)
  ultimately show "stana_geometry sig wind hsize True
           = Inr (int N, int (length wind - hsize), int (N * hsize - length sig))"
    by (simp only:)
qed

section \<open>Constant overlap-add\<close>

lemma cola_set:
  assumes "cola wind h" and "r < h"
  shows "(\<Sum>i \<in> {i. i < length wind \<and> i mod h = r}. wind ! i) = 1"
proof -
  have "sum_list (map (\<lambda>j. wind ! j) (filter (\<lambda>j. j mod h = r) [0..<length wind])) = 1"
    using assms by (simp add: cola_def)
  moreover have "sum_list (map (\<lambda>j. wind ! j) (filter (\<lambda>j. j mod h = r) [0..<length wind]))
      = sum (\<lambda>j. wind ! j) (set (filter (\<lambda>j. j mod h = r) [0..<length wind]))"
    by (rule sum_list_distinct_conv_sum_set) simp
  moreover have "set (filter (\<lambda>j. j mod h = r) [0..<length wind]) = {i. i < length wind \<and> i mod h = r}"
    by auto
  ultimately show ?thesis by simp
qed

lemma cola_hop_le:
  assumes "cola wind h" and "0 < h"
  shows "h \<le> length wind"
proof (rule ccontr)
  assume "\<not> h \<le> length wind"
  then have lt: "length wind < h" by simp
  have "{i. i < length wind \<and> i mod h = length wind} = {}" using lt by auto
  with cola_set[OF assms(1) lt] show False by simp
qed

lemma mod_diff_mult:
  fixes m k h :: nat
  assumes "k * h \<le> m"
  shows "(m - k * h) mod h = m mod h"
proof -
  have "m = (m - k * h) + k * h" using assms by simp
  then have "m mod h = ((m - k * h) + k * h) mod h" by simp
  also have "\<dots> = (m - k * h) mod h" by simp
  finally show ?thesis by simp
qed

lemma cola_sum:
  assumes c: "cola wind h" and h: "0 < h" and cover: "t + length wind < N * h + h"
  shows "(\<Sum>j<N. if Suc j * h \<le> t + length wind \<and> t < Suc j * h
                  then wind ! (t + length wind - Suc j * h) else 0) = 1"
proof -
  let ?F = "length wind"
  let ?r = "(t + ?F) mod h"
  let ?S = "{j \<in> {..<N}. Suc j * h \<le> t + ?F \<and> t < Suc j * h}"
  let ?T = "{i. i < ?F \<and> i mod h = ?r}"
  have "(\<Sum>j<N. if Suc j * h \<le> t + ?F \<and> t < Suc j * h then wind ! (t + ?F - Suc j * h) else 0)
      = (\<Sum>j \<in> ?S. wind ! (t + ?F - Suc j * h))"
    by (rule sum.inter_filter[symmetric]) simp
  also have "\<dots> = (\<Sum>i \<in> ?T. wind ! i)"
  proof (rule sum.reindex_bij_witness[where i = "\<lambda>i. (t + ?F - i) div h - 1"
        and j = "\<lambda>j. t + ?F - Suc j * h"])
    fix a assume "a \<in> ?S"
    then have a: "a < N" "Suc a * h \<le> t + ?F" "t < Suc a * h" by auto
    have "t + ?F - (t + ?F - Suc a * h) = Suc a * h" using a(2) by simp
    then show "(t + ?F - (t + ?F - Suc a * h)) div h - 1 = a" using h by simp
    show "t + ?F - Suc a * h \<in> ?T"
      using a mod_diff_mult[OF a(2)] by auto
    show "wind ! (t + ?F - Suc a * h) = wind ! (t + ?F - Suc a * h)" ..
  next
    fix b assume "b \<in> ?T"
    then have b: "b < ?F" "b mod h = ?r" by auto
    define q where "q = (t + ?F - b) div h"
    have ble: "b \<le> t + ?F" using b(1) by simp
    have "(t + ?F - b) mod h = 0"
      using b(2) ble by (metis mod_eq_dvd_iff_nat dvd_imp_mod_0)
    moreover have "q * h + (t + ?F - b) mod h = t + ?F - b"
      unfolding q_def by (rule div_mult_mod_eq)
    ultimately have qh: "q * h = t + ?F - b" by simp
    have pos: "t < q * h" using qh b(1) by linarith
    then have q1: "1 \<le> q" by (cases q) auto
    then have sq: "Suc (q - 1) = q" by simp
    show "t + ?F - Suc ((t + ?F - b) div h - 1) * h = b"
      unfolding q_def[symmetric] sq using qh ble by simp
    have "q * h < N * h + h" using qh cover by linarith
    then have "q * h < Suc N * h" by simp
    then have "q < Suc N" using h by (simp only: mult_less_cancel2)
    then have "q - 1 \<in> {..<N}" using q1 by simp
    moreover have "Suc (q - 1) * h \<le> t + ?F \<and> t < Suc (q - 1) * h"
      unfolding sq using qh pos by simp
    ultimately show "(t + ?F - b) div h - 1 \<in> ?S"
      unfolding q_def[symmetric] by blast
  qed
  also have "\<dots> = 1"
    using h by (intro cola_set[OF c]) simp
  finally show ?thesis .
qed

lemma if_mult_sum:
  fixes x :: real
  shows "(\<Sum>j<N. if P j then x * w j else 0) = x * (\<Sum>j<N. if P j then w j else 0)"
proof -
  have "(\<Sum>j<N. if P j then x * w j else 0) = (\<Sum>j<N. x * (if P j then w j else 0))"
    by (rule sum.cong) auto
  then show ?thesis by (simp only: sum_distrib_left)
qed

lemma frame_term:
  fixes xs :: "real list"
  assumes hF: "h \<le> F" and F: "length wind = F" and j: "j < N"
    and lenp: "length xs = N * h"
  defines "fs \<equiv> map (\<lambda>k. map2 (\<lambda>x w. x * w) (take F (drop (k * h) (replicate (F - h) 0 @ xs))) wind) [0..<N]"
  shows "ola_term F h (int h - int F) fs j t
           = (if Suc j * h \<le> t + F \<and> t < Suc j * h then xs ! t * wind ! (t + F - Suc j * h) else 0)"
proof (cases "Suc j * h \<le> t + F \<and> t < Suc j * h")
  case True
  define i where "i = t + F - Suc j * h"
  have iF: "i < F" using True by (simp add: i_def) linarith
  have c: "int h - int F + int j * int h \<le> int t \<and> int t < int h - int F + int j * int h + int F"
  proof -
    have "int (Suc j * h) \<le> int (t + F)" "int t < int (Suc j * h)"
      using True by (simp_all only: of_nat_le_iff of_nat_less_iff)
    then show ?thesis by (simp add: algebra_simps)
  qed
  have idx: "nat (int t - (int h - int F) - int j * int h) = i"
  proof -
    have "int i = int (t + F) - int (Suc j * h)" using True by (simp add: i_def of_nat_diff)
    then show ?thesis by (simp add: algebra_simps)
  qed
  have jh: "j * h + i = (F - h) + t"
    using True hF by (simp add: i_def)
  define p where "p = replicate (F - h) (0::real) @ xs"
  have fs: "fs = map (\<lambda>k. map2 (\<lambda>x w. x * w) (take F (drop (k * h) p)) wind) [0..<N]"
    by (simp only: fs_def p_def)
  have fit: "j * h + F \<le> length p"
  proof -
    have "Suc j * h \<le> N * h" using j by (intro mult_le_mono1) simp
    then show ?thesis using hF lenp by (simp add: p_def)
  qed
  have lt: "length (take F (drop (j * h) p)) = F"
    using fit by simp
  have "fs ! j ! i = (take F (drop (j * h) p)) ! i * wind ! i"
    using j iF lt F by (simp add: fs)
  also have "(take F (drop (j * h) p)) ! i = p ! (j * h + i)"
    using iF fit by simp
  also have "\<dots> = xs ! t"
    unfolding jh p_def by (simp add: nth_append)
  finally have "fs ! j ! i = xs ! t * wind ! i" .
  then show ?thesis
    using True c by (simp add: ola_term_def idx i_def)
next
  case False
  have "\<not> (int h - int F + int j * int h \<le> int t \<and> int t < int h - int F + int j * int h + int F)"
  proof
    assume a: "int h - int F + int j * int h \<le> int t \<and> int t < int h - int F + int j * int h + int F"
    then have "int (Suc j * h) \<le> int (t + F)" "int t < int (Suc j * h)"
      by (simp_all add: algebra_simps)
    then have "Suc j * h \<le> t + F \<and> t < Suc j * h"
      by (simp only: of_nat_le_iff of_nat_less_iff)
    with False show False by simp
  qed
  then show ?thesis using False by (simp only: ola_term_def if_False)
qed

lemma cola_tri: "cola [0, 1 / 2, 1, 1 / 2] 2"
  by code_simp

section \<open>Where the frame count and the output length are as expected\<close>

text \<open>
  In analysis mode, and in synthesis-aligned mode when the hop does not exceed the window,
  \<open>stana\<close> returns as many frames as \<open>numframes\<close> announces.
\<close>

lemma stana_count:
  fixes sig wind :: "real list"
  assumes w: "wind \<noteq> []" and h0: "0 < hsize" and mode: "\<not> synth \<or> hsize \<le> length wind"
    and sz: "length sig + length wind < 2 ^ 53" and hb: "hsize < 2 ^ 53"
  shows "\<exists>fs. stana sig 8 sr wind hsize synth = Inr fs \<and>
              numframes sig sr wind hsize synth = Inr (int (length fs))"
proof (cases synth)
  case True
  then have hF: "hsize \<le> length wind" using mode by simp
  define N where "N = nat (ceil_div (int (length sig) + int (length wind) - int hsize) (int hsize))"
  note g = stana_geometry_synth[OF h0 hF sz, folded N_def]
  have s: "int (length sig) - ana_sstart (length wind) hsize True
          = int (length sig) + int (length wind) - int hsize"
    by (simp add: ana_sstart_def)
  note gr = frame_grid_exact[OF w h0 sz hb, of True, unfolded s]
  have "ceil_div (int (length sig) + int (length wind) - int hsize) (int hsize) = int N"
    using gr(2) by (simp add: N_def)
  then have "numframes sig sr wind hsize True = Inr (int N)"
    unfolding numframes_def Let_def s gr(1) by simp
  then show ?thesis
    using True stana_from_geometry[OF g(1), of sr] by simp
next
  case False
  define c where "c = ceil_div (int (length sig)) (int hsize)"
  note gr = frame_grid_exact[OF w h0 sz hb, of False]
  have s: "int (length sig) - ana_sstart (length wind) hsize False = int (length sig)"
    by (simp add: ana_sstart_def)
  have c0: "0 \<le> c" and pc: "py_ceil_truediv (int (length sig)) (int hsize) = Inr c"
    using gr unfolding s c_def by simp_all
  define N where "N = nat c"
  have cN: "c = int N" using c0 by (simp add: N_def)
  have nf: "numframes sig sr wind hsize False = Inr (int N)"
    using pc by (simp add: numframes_def ana_sstart_def cN)
  define zr where "zr = (int N - 1) * int hsize + int (length wind) - int (length sig)"
  have g: "stana_geometry sig wind hsize False = Inr (int N, 0, zr)"
    using pc by (simp add: stana_geometry_def ana_sstart_def cN zr_def)
  show ?thesis
  proof (cases "0 \<le> zr")
    case True
    then have "stana_geometry sig wind hsize False = Inr (int N, int 0, int (nat zr))"
      using g by simp
    from stana_from_geometry[OF this, of sr] show ?thesis using False nf by simp
  next
    case neg: False
    have fit: "(N - 1) * hsize + length wind \<le> length sig" if N0: "0 < N"
    proof -
      have "int ((N - 1) * hsize + length wind) = (int N - 1) * int hsize + int (length wind)"
        using N0 by (simp add: of_nat_diff)
      then have "int ((N - 1) * hsize + length wind) \<le> int (length sig)"
        using neg unfolding zr_def by linarith
      then show ?thesis by (simp only: of_nat_le_iff)
    qed
    have "as_strided sig 8 8 (int N) (length wind) hsize
        = Inr (map (\<lambda>k. take (length wind) (drop (k * hsize) sig)) [0..<N])"
      using fit by (intro as_strided_same) simp_all
    then have "stana sig 8 sr wind hsize False
        = Inr (map (\<lambda>row. map2 (\<lambda>x w. x * w) row wind)
                 (map (\<lambda>k. take (length wind) (drop (k * hsize) sig)) [0..<N]))"
      using neg by (simp add: stana_def g)
    then show ?thesis using False nf by simp
  qed
qed

text \<open>
  When the start offset of \<open>ola\<close> is exact and no frame is shorter than the window, \<open>ola\<close>
  returns \<open>hsize * nframe\<close> samples; of no frames it returns no sample.
\<close>

lemma ola_exact_length:
  assumes ex: "ola_sstart (length wind) hsize = Inr (int hsize - int (length wind))"
    and fr: "\<forall>fr \<in> set sframes. length wind \<le> length fr"
  shows "\<exists>out. ola sframes sr wind hsize = Inr out \<and> length out = hsize * length sframes"
proof -
  have fits: "\<forall>j<length sframes.
      (int hsize - int (length wind)) + int j * int hsize + int (length wind) \<le> int (hsize * length sframes)"
  proof (intro allI impI)
    fix j assume "j < length sframes"
    then have "Suc j * hsize \<le> length sframes * hsize" by (intro mult_le_mono1) simp
    then have "int (Suc j * hsize) \<le> int (length sframes * hsize)" by (simp only: of_nat_le_iff)
    then show "(int hsize - int (length wind)) + int j * int hsize + int (length wind)
                 \<le> int (hsize * length sframes)"
      by (simp add: algebra_simps)
  qed
  have "ola_loop (length wind) hsize (int (hsize * length sframes)) (int hsize - int (length wind))
          (replicate (hsize * length sframes) 0) sframes
      = Inr (map (\<lambda>t. replicate (hsize * length sframes) 0 ! t
                        + (\<Sum>j<length sframes.
                             ola_term (length wind) hsize (int hsize - int (length wind)) sframes j t))
               [0..<hsize * length sframes])"
    using fr fits by (intro ola_loop_good) simp_all
  then show ?thesis unfolding ola_exact_unfold[OF ex] by simp
qed

lemma ola_exact_empty:
  assumes "ola_sstart (length wind) hsize = Inr (int hsize - int (length wind))"
  shows "ola [] sr wind hsize = Inr []"
  unfolding ola_exact_unfold[OF assms] by simp

text \<open>
  Ten samples, a window of three, a hop of four, synthesis-aligned: the copy into the padded
  buffer fails before any view is taken, whatever the array's byte stride.
\<close>

lemma stana_gapped_geometry:
  "stana_geometry [1, 2, 3, 4, 5, 6, 7, 8, 9, 10] [1, 1, 1] 4 True = Inr (3, - 1, 2)"
  by code_simp

lemma stana_gapped_assign:
  "slice_assign (replicate 11 0) (Some (- 1)) (Some 9) [1, 2, 3, 4, 5, 6, 7, 8, 9, 10] = Inl ValueError"
  by code_simp

lemma stana_gapped_raises:
  "stana [1, 2, 3, 4, 5, 6, 7, 8, 9, 10] std sr [1, 1, 1] 4 True = Inl ValueError"
  by (simp add: stana_def stana_gapped_geometry stana_gapped_assign)

section \<open>The claims\<close>

subsection \<open>Frame count and frames\<close>

text \<open>
  Claim C2: for every signal, window of positive length, positive hop size and \<open>synth\<close> flag,
  \<open>numframes\<close> returns the number of frames that \<open>stana\<close> produces. The code misses it
  when the hop exceeds the window in synthesis-aligned mode: for a signal of ten samples, a
  window of three and a hop of four, \<open>numframes\<close> answers three, and \<open>stana\<close> raises
  \<open>ValueError\<close> while it copies the signal into the padded buffer.
\<close>

theorem numframes_three_stana_raises:
  "numframes [1, 2, 3, 4, 5, 6, 7, 8, 9, 10] 1 [1, 1, 1] 4 True = Inr 3 \<and>
   stana [1, 2, 3, 4, 5, 6, 7, 8, 9, 10] std 1 [1, 1, 1] 4 True = Inl ValueError"
proof -
  have "numframes [1, 2, 3, 4, 5, 6, 7, 8, 9, 10] 1 [1, 1, 1] 4 True = Inr 3"
    by code_simp
  then show ?thesis by (simp add: stana_gapped_raises)
qed

text \<open>
  Claim C6: the zero-pad amounts of \<open>stana\<close> are \<open>max(0, -sstart)\<close> and
  \<open>max(0, \<dots>)\<close>, so both are non-negative, also when the hop exceeds the window in
  synthesis-aligned mode. The code takes \<open>zpleft = -sstart\<close> as it is: at the input
  above the amounts are \<open>-1\<close> and \<open>2\<close>, the padded buffer is built with them, and the call
  raises \<open>ValueError\<close>.
\<close>

theorem stana_geometry_negative_zpleft:
  "stana_geometry [1, 2, 3, 4, 5, 6, 7, 8, 9, 10] [1, 1, 1] 4 True = Inr (3, - 1, 2) \<and>
   stana [1, 2, 3, 4, 5, 6, 7, 8, 9, 10] std 16000 [1, 1, 1] 4 True = Inl ValueError"
  by (simp add: stana_gapped_geometry stana_gapped_raises)

text \<open>
  Claim C3, as stated: for the signal \<open>[1,2,3,4,5]\<close>, a window of four ones and hop size
  two, the first frame of \<open>stana\<close> is \<open>[0,0,1,2]\<close>. The signal is taken as numpy holds
  it by default, a contiguous array of 8-byte elements (float64 or int64), so
  \<open>sig.strides[0] = 8\<close>. With the default \<open>synth = False\<close> the first frame starts at the
  first sample and is \<open>[1,2,3,4]\<close>.
\<close>

theorem stana_default_first_frame:
  "stana [1, 2, 3, 4, 5] 8 1 [1, 1, 1, 1] 2 False = Inr [[1, 2, 3, 4], [3, 4, 5, 0], [5, 0, 0, 0]] \<and>
   hd [[1, 2, 3, 4], [3, 4, 5, 0], [5, 0, 0, 0]] \<noteq> [0, 0, 1, 2 :: real]"
  by code_simp

text \<open>
  Claim C3, amended: for the signal \<open>[1,2,3,4,5]\<close> held as a contiguous array of 8-byte
  elements (float64 or int64, \<open>sig.strides[0] = 8\<close>), with \<open>synth = True\<close> the first frame
  is \<open>[0,0,1,2]\<close>, left-padded with two zeros, and the last frame is \<open>[5,0,0,0]\<close>; with the
  default \<open>synth = False\<close> nothing is padded on the left, the first frame is \<open>[1,2,3,4]\<close>,
  and the last frame is again \<open>[5,0,0,0]\<close>, the trailing sample right-padded with zeros.
  Nothing is said of a signal with another byte stride (float32, int16, a strided slice):
  the padded buffer is float64, and \<open>stana\<close> views it with the strides of the signal.
\<close>

theorem stana_padding_both_modes:
  "stana [1, 2, 3, 4, 5] 8 1 [1, 1, 1, 1] 2 True
     = Inr [[0, 0, 1, 2], [1, 2, 3, 4], [3, 4, 5, 0], [5, 0, 0, 0]] \<and>
   stana [1, 2, 3, 4, 5] 8 1 [1, 1, 1, 1] 2 False
     = Inr [[1, 2, 3, 4], [3, 4, 5, 0], [5, 0, 0, 0]]"
  by code_simp

text \<open>
  Claim C9: for an empty signal with \<open>synth = False\<close>, any window of positive length and any
  positive hop size, \<open>numframes\<close> returns 0, \<open>stana\<close> returns no frame, and neither raises.
\<close>

theorem empty_signal_no_frames:
  assumes "wind \<noteq> []" and "0 < hsize"
  shows "numframes [] sr wind hsize False = Inr 0 \<and> stana [] std sr wind hsize False = Inr []"
proof -
  have g: "stana_geometry [] wind hsize False = Inr (0, 0, int (length wind) - int hsize)"
    using assms by (simp add: stana_geometry_def ana_sstart_def py_ceil_truediv_zero)
  have n: "numframes [] sr wind hsize False = Inr 0"
    using assms by (simp add: numframes_def ana_sstart_def py_ceil_truediv_zero)
  have s: "stana [] std sr wind hsize False = Inr []"
    by (simp add: stana_def g Let_def slice_assign_def slice_lo_def slice_hi_def slice_index_def
        as_strided_def)
  from n s show ?thesis by simp
qed

theorem empty_signal_no_frames_witness:
  "[1, 1, 1::real] \<noteq> [] \<and> (0::nat) < 2 \<and>
   numframes [] 16000 [1, 1, 1] 2 False = Inr 0 \<and> stana [] 8 16000 [1, 1, 1] 2 False = Inr []"
  using empty_signal_no_frames [of "[1, 1, 1]" 2 16000 8] by simp

subsection \<open>The start offset of the synthesis\<close>

text \<open>
  Claim C4: for every window length and hop size, the start offset that \<open>ola\<close> computes,
  \<open>int(-fsize*(1-hsize/fsize))\<close>, is the offset \<open>hsize - fsize\<close> of the analysis side.
  In binary64 it is not: for a window of ten and a hop of nine, \<open>hsize/fsize\<close> rounds to a
  double above \<open>9/10\<close>, the product is \<open>-0.9999999999999998\<close>, and \<open>int\<close> truncates it to
  \<open>0\<close>, where the analysis side has \<open>-1\<close>.
\<close>

theorem ola_sstart_differs_from_ana_sstart:
  "ola_sstart 10 9 = Inr 0 \<and> ana_sstart 10 9 True = - 1"
  by code_simp

text \<open>
  Claim C5: for a non-empty sequence of \<open>nframe\<close> frames and \<open>hsize \<le> fsize\<close>, \<open>ola\<close>
  returns \<open>hsize * nframe\<close> samples. With one frame, a window of ten and a hop of nine the
  code returns ten samples, not nine: the start offset is \<open>0\<close>, as under claim C4.
\<close>

theorem ola_one_frame_ten_samples:
  "ola [[1, 2, 3, 4, 5, 6, 7, 8, 9, 10]] 1 (replicate 10 1) 9
     = Inr [1, 2, 3, 4, 5, 6, 7, 8, 9, 10]"
  by code_simp

text \<open>
  Claim C10: \<open>ola\<close> of no frames returns an empty signal and does not raise. With a window
  of ten and a hop of nine the code returns one sample, \<open>[0]\<close>; the start offset is \<open>0\<close>, as
  under claim C4.
\<close>

theorem ola_no_frames_one_sample:
  "ola [] 1 (replicate 10 1) 9 = Inr [0]"
  by code_simp

subsection \<open>Frame centres\<close>

text \<open>
  Claim C7: \<open>stcenters\<close> returns exactly \<open>nframe\<close> values, the \<open>i\<close>-th being
  \<open>(sstart + i*hsize + (fsize-1)/2) / sr\<close> with \<open>sstart = hsize - fsize\<close> when \<open>synth\<close> holds
  and \<open>0\<close> otherwise; for a window of four, a hop of two, sampling rate one and six samples
  in analysis mode the first centre is \<open>3/2\<close>. Here \<open>nframe\<close> is the ceiling of
  \<open>(ssize - sstart) / hsize\<close>, which is also what \<open>numframes\<close> returns; the sizes stay
  below \<open>2 ^ 53\<close>, where the ceiling of the double quotient is the exact one. The offset
  and the count are written out in the statement, for either value of \<open>synth\<close>: at the
  input above, synthesis-aligned mode has four centres, the first at \<open>-1/2\<close>, and analysis
  mode has three, the first at \<open>3/2\<close>.
\<close>

theorem stcenters_values:
  assumes "wind \<noteq> []" and "0 < hsize" and "sr \<noteq> 0"
    and "length sig + length wind < 2 ^ 53" and "hsize < 2 ^ 53"
  shows "(let sstart = (if synth then int hsize - int (length wind) else 0);
              nframe = \<lceil>real_of_int (int (length sig) - sstart) / real hsize\<rceil>
          in stcenters sig sr wind hsize synth
               = Inr (map (\<lambda>i. (real_of_int (sstart + int i * int hsize) + (real (length wind) - 1) / 2)
                                  / real_of_int sr) [0..<nat nframe]) \<and>
             numframes sig sr wind hsize synth = Inr nframe \<and> 0 \<le> nframe) \<and>
         (length sig = 6 \<and> length wind = 4 \<and> hsize = 2 \<and> sr = 1 \<and> \<not> synth
            \<longrightarrow> (\<exists>cs. stcenters sig sr wind hsize synth = Inr (3 / 2 # cs)))"
proof -
  define s where "s = (if synth then int hsize - int (length wind) else 0)"
  define n where "n = \<lceil>real_of_int (int (length sig) - s) / real hsize\<rceil>"
  have sa: "ana_sstart (length wind) hsize synth = s" by (simp add: ana_sstart_def s_def)
  have nc: "ceil_div (int (length sig) - s) (int hsize) = n" by (simp add: n_def ceil_div_ceiling)
  note g = frame_grid_exact[OF assms(1,2,4,5), of synth, unfolded sa nc]
  have c: "stcenters sig sr wind hsize synth
      = Inr (map (\<lambda>i. (real_of_int (s + int i * int hsize) + (real (length wind) - 1) / 2)
                        / real_of_int sr) [0..<nat n])"
    unfolding stcenters_def np_arange_def Let_def sa g(1) by (simp add: comp_def)
  have nf: "numframes sig sr wind hsize synth = Inr n"
    unfolding numframes_def Let_def sa g(1) ..
  have p: "\<exists>cs. stcenters sig sr wind hsize synth = Inr (3 / 2 # cs)"
    if a: "length sig = 6 \<and> length wind = 4 \<and> hsize = 2 \<and> sr = 1 \<and> \<not> synth"
  proof -
    have "s = 0" using a by (simp add: s_def)
    moreover have "n = 3" using a by (simp add: n_def s_def)
    moreover have "[0..<nat 3] = [0, 1, 2]" by (simp add: eval_nat_numeral upt_rec)
    ultimately show ?thesis using a c by simp
  qed
  from c nf g(2) p show ?thesis
    unfolding Let_def s_def[symmetric] n_def[symmetric] by blast
qed

theorem stcenters_values_witness:
  "[1, 1, 1, 1 :: real] \<noteq> [] \<and> (0::nat) < 2 \<and> (1::int) \<noteq> 0 \<and>
   length [0, 0, 0, 0, 0, 0 :: real] + length [1, 1, 1, 1 :: real] < 2 ^ 53 \<and> (2::nat) < 2 ^ 53 \<and>
   stcenters [0, 0, 0, 0, 0, 0] 1 [1, 1, 1, 1] 2 True = Inr [- 1 / 2, 3 / 2, 7 / 2, 11 / 2] \<and>
   numframes [0, 0, 0, 0, 0, 0] 1 [1, 1, 1, 1] 2 True = Inr 4 \<and>
   stcenters [0, 0, 0, 0, 0, 0] 1 [1, 1, 1, 1] 2 False = Inr [3 / 2, 7 / 2, 11 / 2] \<and>
   numframes [0, 0, 0, 0, 0, 0] 1 [1, 1, 1, 1] 2 False = Inr 3"
proof -
  have u4: "[0..<4] = [0, 1, 2, 3]" and u3: "[0..<3] = [0, 1, 2]"
    by (simp_all add: eval_nat_numeral upt_rec)
  have h: "[1, 1, 1, 1 :: real] \<noteq> []" "(0::nat) < 2" "(1::int) \<noteq> 0"
    "length [0, 0, 0, 0, 0, 0 :: real] + length [1, 1, 1, 1 :: real] < 2 ^ 53" "(2::nat) < 2 ^ 53"
    by simp_all
  from stcenters_values[OF h, of True]
  have t: "stcenters [0, 0, 0, 0, 0, 0] 1 [1, 1, 1, 1] 2 True = Inr [- 1 / 2, 3 / 2, 7 / 2, 11 / 2] \<and>
           numframes [0, 0, 0, 0, 0, 0] 1 [1, 1, 1, 1] 2 True = Inr 4"
    by (simp add: Let_def u4)
  from stcenters_values[OF h, of False]
  have f: "stcenters [0, 0, 0, 0, 0, 0] 1 [1, 1, 1, 1] 2 False = Inr [3 / 2, 7 / 2, 11 / 2] \<and>
           numframes [0, 0, 0, 0, 0, 0] 1 [1, 1, 1, 1] 2 False = Inr 3"
    by (simp add: Let_def u3)
  from h t f show ?thesis by simp
qed

subsection \<open>Frames shorter than the window\<close>

text \<open>
  Claim C8, as stated: a frame shorter than the window makes \<open>ola\<close> fail at call entry.
  \<open>ola\<close> checks nothing at entry, and a frame of one sample is broadcast over the whole
  window span by the slice addition: the call returns a buffer.
\<close>

theorem ola_one_sample_frame_broadcast:
  "length [5 :: real] < length [1, 1, 1, 1 :: real] \<and> ola [[5]] 1 [1, 1, 1, 1] 4 = Inr [5, 5, 5, 5]"
  by code_simp

text \<open>
  Claim C8, amended: \<open>ola\<close> has no check of the frame lengths at entry; a short frame is
  met in the accumulation loop. When the start offset is computed exactly and frame \<open>k\<close> is
  shorter than the window, the call raises \<open>ValueError\<close> and returns no buffer, unless the
  part of the frame that is added (the whole frame when \<open>(k+1)*hsize \<ge> fsize\<close>, the frame
  without its first \<open>fsize - (k+1)*hsize\<close> samples otherwise) has exactly one sample, which
  numpy broadcasts instead.
\<close>

theorem ola_short_frame_raises:
  assumes "0 < hsize"
    and "ola_sstart (length wind) hsize = Inr (int hsize - int (length wind))"
    and "k < length sframes" and "length (sframes ! k) < length wind"
    and "nat (int (length (sframes ! k)) + min 0 (int (Suc k) * int hsize - int (length wind))) \<noteq> 1"
  shows "ola sframes sr wind hsize = Inl ValueError"
proof -
  let ?F = "length wind" and ?S = "hsize * length sframes"
  let ?ii = "int hsize - int ?F"
  have e: "?ii + int k * int hsize = int (Suc k) * int hsize - int ?F"
    by (simp add: algebra_simps)
  have p: "0 < ?ii + int k * int hsize + int ?F"
    using assms(1) by (simp add: algebra_simps add_pos_nonneg)
  have "Suc k \<le> length sframes" using assms(3) by simp
  then have "hsize * Suc k \<le> ?S" by (rule mult_le_mono2)
  then have "int (hsize * Suc k) \<le> int ?S" by (simp only: of_nat_le_iff)
  then have f: "?ii + int k * int hsize + int ?F \<le> int ?S"
    by (simp add: algebra_simps)
  have "ola_loop ?F hsize (int ?S) ?ii (replicate ?S 0) sframes = Inl ValueError"
  proof (rule ola_loop_bad[where k = k])
    show "k < length sframes" by fact
    show "length (sframes ! k) < ?F" by fact
    show "length (replicate ?S (0::real)) = ?S" by simp
    show "0 < ?ii + int k * int hsize + int ?F" by (rule p)
    show "?ii + int k * int hsize + int ?F \<le> int ?S" by (rule f)
    show "nat (int (length (sframes ! k)) + min 0 (?ii + int k * int hsize)) \<noteq> 1"
      unfolding e by (rule assms(5))
  qed
  then show ?thesis by (simp only: ola_exact_unfold[OF assms(2)])
qed

theorem ola_short_frame_raises_witness:
  "(0::nat) < 2 \<and>
   ola_sstart (length [1, 1, 1, 1 :: real]) 2 = Inr (int 2 - int (length [1, 1, 1, 1 :: real])) \<and>
   (1::nat) < length [[1, 2, 3, 4], [1, 2 :: real]] \<and>
   length ([[1, 2, 3, 4], [1, 2 :: real]] ! 1) < length [1, 1, 1, 1 :: real] \<and>
   nat (int (length ([[1, 2, 3, 4], [1, 2 :: real]] ! 1))
        + min 0 (int (Suc 1) * int 2 - int (length [1, 1, 1, 1 :: real]))) \<noteq> 1 \<and>
   ola [[1, 2, 3, 4], [1, 2]] 1 [1, 1, 1, 1] 2 = Inl ValueError"
proof -
  have l: "length [1, 1, 1, 1 :: real] = 4" by simp
  have s: "ola_sstart (length [1, 1, 1, 1 :: real]) 2 = Inr (int 2 - int (length [1, 1, 1, 1 :: real]))"
    unfolding l using ola_sstart_4_2 by simp
  have "ola [[1, 2, 3, 4], [1, 2]] 1 [1, 1, 1, 1] 2 = Inl ValueError"
    by (rule ola_short_frame_raises [where k = 1, OF _ s]) simp_all
  with s show ?thesis by simp
qed

subsection \<open>Analysis followed by synthesis\<close>

text \<open>
  Claim C1, as stated: for a window and hop with the constant-overlap-add property and any
  signal, \<open>ola\<close> of \<open>stana\<close>, both with the default \<open>synth\<close> flag, gives the signal back.
  With the default \<open>synth = False\<close> the frames start at sample 0 while \<open>ola\<close> places the
  first frame at \<open>hsize - fsize\<close>: for the window \<open>[0, 1/2, 1, 1/2]\<close> at hop 2 the signal
  \<open>[1,2,3,4,5]\<close>, a contiguous float64 array (\<open>sig.strides[0] = 8\<close>), comes back as
  \<open>[3,4,5,0,0,0]\<close>, shifted by two samples.
\<close>

theorem roundtrip_default_shifted:
  "cola [0, 1 / 2, 1, 1 / 2] 2 \<and>
   roundtrip [1, 2, 3, 4, 5] 8 1 [0, 1 / 2, 1, 1 / 2] 2 False = Inr [3, 4, 5, 0, 0, 0]"
  by code_simp

text \<open>
  Claim C1, amended: when the signal is a contiguous array of 8-byte elements (float64 or
  int64, \<open>sig.strides[0] = 8\<close>), \<open>stana\<close> is called with \<open>synth = True\<close>, the window sums
  to one at every residue of the hop (constant overlap-add with constant one) and the start
  offset of \<open>ola\<close> is computed exactly, \<open>ola\<close> of the frames is the signal followed by
  \<open>hsize * nframe - len(signal)\<close> zeros, for every signal length (sizes below \<open>2 ^ 53\<close>);
  over exact reals the equality is exact. Nothing is said of a signal with another byte
  stride (float32, int16, a strided slice): \<open>stana\<close> views its float64 padded buffer with
  the strides of the signal.
\<close>

theorem roundtrip_synth:
  assumes c: "cola wind hsize" and h0: "0 < hsize"
    and sz: "length sig + length wind < 2 ^ 53"
    and ex: "ola_sstart (length wind) hsize = Inr (int hsize - int (length wind))"
  shows "roundtrip sig 8 sr wind hsize True
           = Inr (sig @ replicate
                    (hsize * nat (ceil_div (int (length sig) + int (length wind) - int hsize) (int hsize))
                       - length sig) 0)"
proof -
  define F where "F = length wind"
  define N where "N = nat (ceil_div (int (length sig) + int (length wind) - int hsize) (int hsize))"
  define xs where "xs = sig @ replicate (N * hsize - length sig) 0"
  define fs where "fs = map (\<lambda>k. map2 (\<lambda>x w. x * w)
                              (take F (drop (k * hsize) (replicate (F - hsize) 0 @ xs))) wind) [0..<N]"
  have hF: "hsize \<le> F" unfolding F_def by (rule cola_hop_le[OF c h0])
  note g = stana_geometry_synth[OF h0 hF[unfolded F_def] sz, folded N_def]
  have nle: "length sig \<le> N * hsize" using g(2) hF by (simp add: F_def)
  have lxs: "length xs = N * hsize" using nle by (simp add: xs_def)
  have st: "stana sig 8 sr wind hsize True = Inr fs"
    unfolding fs_def xs_def F_def by (rule stana_from_geometry[OF g(1)])
  have lfs: "length fs = N" by (simp add: fs_def)
  have lfr: "\<forall>fr \<in> set fs. F \<le> length fr"
  proof
    fix fr assume "fr \<in> set fs"
    then obtain k where k: "k < N" and fr: "fr = map2 (\<lambda>x w. x * w)
        (take F (drop (k * hsize) (replicate (F - hsize) 0 @ xs))) wind"
      by (auto simp: fs_def)
    have "Suc k * hsize \<le> N * hsize" using k by (intro mult_le_mono1) simp
    then have "k * hsize + F \<le> length (replicate (F - hsize) (0::real) @ xs)"
      using hF lxs by simp
    then have "length (take F (drop (k * hsize) (replicate (F - hsize) 0 @ xs))) = F"
      by simp
    then show "F \<le> length fr" unfolding fr by (simp add: F_def)
  qed
  have fits: "\<forall>j<length fs. (int hsize - int F) + int j * int hsize + int F \<le> int (hsize * N)"
  proof (intro allI impI)
    fix j assume "j < length fs"
    then have "Suc j * hsize \<le> N * hsize" unfolding lfs by (intro mult_le_mono1) simp
    then have "int (Suc j * hsize) \<le> int (N * hsize)" by (simp only: of_nat_le_iff)
    then show "(int hsize - int F) + int j * int hsize + int F \<le> int (hsize * N)"
      by (simp add: algebra_simps)
  qed
  have loop: "ola_loop F hsize (int (hsize * N)) (int hsize - int F) (replicate (hsize * N) 0) fs
      = Inr (map (\<lambda>t. replicate (hsize * N) 0 ! t
                        + (\<Sum>j<length fs. ola_term F hsize (int hsize - int F) fs j t)) [0..<hsize * N])"
    using lfr fits by (intro ola_loop_good) simp_all
  have val: "replicate (hsize * N) 0 ! t + (\<Sum>j<length fs. ola_term F hsize (int hsize - int F) fs j t)
               = xs ! t" if t: "t < hsize * N" for t
  proof -
    have "(\<Sum>j<N. ola_term F hsize (int hsize - int F) fs j t)
        = (\<Sum>j<N. if Suc j * hsize \<le> t + F \<and> t < Suc j * hsize
                     then xs ! t * wind ! (t + F - Suc j * hsize) else 0)"
    proof (rule sum.cong[OF refl])
      fix j assume "j \<in> {..<N}"
      then have j: "j < N" by simp
      show "ola_term F hsize (int hsize - int F) fs j t
          = (if Suc j * hsize \<le> t + F \<and> t < Suc j * hsize
             then xs ! t * wind ! (t + F - Suc j * hsize) else 0)"
        unfolding fs_def by (rule frame_term[OF hF F_def[symmetric] j lxs])
    qed
    also have "\<dots> = xs ! t * (\<Sum>j<N. if Suc j * hsize \<le> t + F \<and> t < Suc j * hsize
                     then wind ! (t + F - Suc j * hsize) else 0)"
      by (rule if_mult_sum)
    also have "\<dots> = xs ! t"
    proof (cases "t < length sig")
      case True
      then have "t + length wind < N * hsize + hsize" using g(2) by linarith
      from cola_sum[OF c h0 this]
      have "(\<Sum>j<N. if Suc j * hsize \<le> t + F \<and> t < Suc j * hsize
                     then wind ! (t + F - Suc j * hsize) else 0) = 1"
        unfolding F_def .
      then show ?thesis by (simp only: mult_1_right)
    next
      case False
      then have "xs ! t = 0" using t by (simp add: xs_def nth_append mult.commute)
      then show ?thesis by simp
    qed
    finally show ?thesis using t by (simp add: lfs)
  qed
  have "map (\<lambda>t. replicate (hsize * N) 0 ! t
                        + (\<Sum>j<length fs. ola_term F hsize (int hsize - int F) fs j t)) [0..<hsize * N]
        = xs"
  proof (rule nth_equalityI)
    show "length (map (\<lambda>t. replicate (hsize * N) 0 ! t
                        + (\<Sum>j<length fs. ola_term F hsize (int hsize - int F) fs j t)) [0..<hsize * N])
            = length xs"
      by (simp add: lxs mult.commute)
  next
    fix t assume "t < length (map (\<lambda>t. replicate (hsize * N) 0 ! t
                        + (\<Sum>j<length fs. ola_term F hsize (int hsize - int F) fs j t)) [0..<hsize * N])"
    then have t: "t < hsize * N" by simp
    then show "map (\<lambda>t. replicate (hsize * N) 0 ! t
                        + (\<Sum>j<length fs. ola_term F hsize (int hsize - int F) fs j t)) [0..<hsize * N] ! t
                 = xs ! t"
      using val[OF t] by simp
  qed
  with loop have "ola fs sr wind hsize = Inr xs"
    unfolding ola_exact_unfold[OF ex] lfs F_def by simp
  then show ?thesis
    unfolding roundtrip_def st by (simp add: xs_def N_def mult.commute)
qed

theorem roundtrip_synth_witness:
  "cola [0, 1 / 2, 1, 1 / 2] 2 \<and> (0::nat) < 2 \<and>
   length [1, 2, 3, 4, 5 :: real] + length [0, 1 / 2, 1, 1 / 2 :: real] < 2 ^ 53 \<and>
   ola_sstart (length [0, 1 / 2, 1, 1 / 2 :: real]) 2
     = Inr (int 2 - int (length [0, 1 / 2, 1, 1 / 2 :: real])) \<and>
   roundtrip [1, 2, 3, 4, 5] 8 1 [0, 1 / 2, 1, 1 / 2] 2 True = Inr [1, 2, 3, 4, 5, 0, 0, 0]"
proof -
  have l: "length [0, 1 / 2, 1, 1 / 2 :: real] = 4" by simp
  have s: "ola_sstart (length [0, 1 / 2, 1, 1 / 2 :: real]) 2
             = Inr (int 2 - int (length [0, 1 / 2, 1, 1 / 2 :: real]))"
    unfolding l using ola_sstart_4_2 by simp
  have z: "length [1, 2, 3, 4, 5 :: real] + length [0, 1 / 2, 1, 1 / 2 :: real] < 2 ^ 53" by simp
  have r: "roundtrip [1, 2, 3, 4, 5] 8 1 [0, 1 / 2, 1, 1 / 2] 2 True = Inr [1, 2, 3, 4, 5, 0, 0, 0]"
    using roundtrip_synth [OF cola_tri _ z s, of 1] by (simp add: ceil_div_def replicate_Suc numeral_3_eq_3)
  from cola_tri s z r show ?thesis by simp
qed

end
